theory Spec2Isabelle
  imports Main
begin

section \<open>Bonusly Poker: the ledger of a game and the settlement of a session\<close>

text \<open>
  A shallow embedding of \<^verbatim>\<open>src/bonusly_poker.py\<close>. Python integers are \<^typ>\<open>int\<close>,
  strings are \<^typ>\<open>string\<close>, objects are records passed and returned explicitly, and a
  \<^verbatim>\<open>dict\<close> is an association list in insertion order that holds every key once.
  An operation that can raise returns the raised error beside the state the objects are
  left in, because the Python objects are mutated in place and survive the exception.
\<close>

subsection \<open>Errors\<close>

text \<open>
  \<^verbatim>\<open>ValueError\<close> carries the rejected winner name that the message of
  \<^verbatim>\<open>Game.set_winner\<close> quotes; \<^verbatim>\<open>EOFError\<close> is what \<^verbatim>\<open>input\<close> raises
  when no further reply is available; \<^verbatim>\<open>OverflowError\<close> is raised by the conversion of
  an integer beyond the range of a double.
\<close>

datatype error = ValueError string | EOFError | OverflowError

subsection \<open>Player\<close>

record player =
  name :: string
  starting_stack :: int
  stack :: int
  bets :: "(int \<times> int) list"
  actions :: "(int \<times> string) list"
  went_negative_override :: bool

text \<open>\<^verbatim>\<open>Player.__init__\<close>\<close>

definition Player_init :: "string \<Rightarrow> int \<Rightarrow> player" where
  "Player_init nm st =
     \<lparr>name = nm, starting_stack = st, stack = st, bets = [], actions = [],
      went_negative_override = False\<rparr>"

text \<open>\<^verbatim>\<open>Player.record_action\<close>: two appends and one subtraction, nothing is checked.\<close>

definition record_action :: "player \<Rightarrow> int \<Rightarrow> string \<Rightarrow> int \<Rightarrow> player" where
  "record_action p round_number action amount =
     p\<lparr>bets := bets p @ [(round_number, amount)],
       actions := actions p @ [(round_number, action)],
       stack := stack p - amount\<rparr>"

text \<open>\<^verbatim>\<open>Player.total_bet\<close>: the sum of the amounts of the bet log.\<close>

definition total_bet :: "player \<Rightarrow> int" where
  "total_bet p = sum_list (map snd (bets p))"

text \<open>A sequence of \<^verbatim>\<open>record_action\<close> calls on one player, in order.\<close>

fun record_actions :: "player \<Rightarrow> (int \<times> string \<times> int) list \<Rightarrow> player" where
  "record_actions p [] = p"
| "record_actions p ((r, a, amt) # calls) = record_actions (record_action p r a amt) calls"

subsection \<open>Dictionaries\<close>

text \<open>
  \<^verbatim>\<open>d[k] = v\<close> on a Python \<^verbatim>\<open>dict\<close>: an existing key keeps its place and takes
  the new value, a new key goes to the end.
\<close>

fun dict_set :: "('k \<times> 'v) list \<Rightarrow> 'k \<Rightarrow> 'v \<Rightarrow> ('k \<times> 'v) list" where
  "dict_set [] k v = [(k, v)]"
| "dict_set ((k', v') # d) k v = (if k' = k then (k, v) # d else (k', v') # dict_set d k v)"

text \<open>\<^verbatim>\<open>d.values()\<close> and \<^verbatim>\<open>d[k]\<close> (\<open>None\<close> for a missing key).\<close>

definition dict_values :: "('k \<times> 'v) list \<Rightarrow> 'v list" where
  "dict_values d = map snd d"

definition dict_get :: "('k \<times> 'v) list \<Rightarrow> 'k \<Rightarrow> 'v option" where
  "dict_get d k = map_of d k"

subsection \<open>Game\<close>

text \<open>One entry of \<^verbatim>\<open>Game.history\<close>; the fields are the keys of the source's dict.\<close>

record history_entry =
  h_round :: int
  h_player :: string
  h_action :: string
  h_amount :: int
  h_pot_after :: int

record game =
  players :: "player list"
  dealer :: string
  big_blind :: string
  small_blind :: string
  base_unit :: int
  chip_denoms :: "int list"
  pot :: int
  round :: int
  history :: "history_entry list"
  winner :: "string option"
  net_results :: "(string \<times> int) list"

text \<open>\<^verbatim>\<open>Game.__init__\<close>\<close>

definition Game_init ::
  "player list \<Rightarrow> string \<Rightarrow> string \<Rightarrow> string \<Rightarrow> int \<Rightarrow> int list \<Rightarrow> game" where
  "Game_init ps d bb sb bu denoms =
     \<lparr>players = ps, dealer = d, big_blind = bb, small_blind = sb, base_unit = bu,
      chip_denoms = denoms, pot = 0, round = 1, history = [], winner = None,
      net_results = []\<rparr>"

subsection \<open>Recording a round\<close>

text \<open>
  \<^verbatim>\<open>Game.record_round\<close> talks to its caller through \<^verbatim>\<open>input_func\<close> and
  \<^verbatim>\<open>print_func\<close>. The replies of \<^verbatim>\<open>input_func\<close> are a list consumed from the
  front; a call with no reply left raises \<^verbatim>\<open>EOFError\<close>. What is printed changes no
  state and is left out. The string methods \<^verbatim>\<open>strip\<close>, \<^verbatim>\<open>lower\<close> and the
  constructor \<^verbatim>\<open>int\<close> are Python builtins and are parameters of the model
  (\<^verbatim>\<open>int\<close> gives \<open>None\<close> where it raises \<^verbatim>\<open>ValueError\<close>), so that every
  theorem holds whatever they compute.
\<close>

record builtins =
  str_strip :: "string \<Rightarrow> string"
  str_lower :: "string \<Rightarrow> string"
  int_of_str :: "string \<Rightarrow> int option"

text \<open>
  Lines 127-141, the inner \<^verbatim>\<open>while True\<close>: ask for the count of one denomination until
  the reply is a whole number that is not negative.
\<close>

fun read_count :: "builtins \<Rightarrow> string list \<Rightarrow> (int \<times> string list) option" where
  "read_count b [] = None"
| "read_count b (reply # inp) =
     (let count_str = str_strip b reply;
          count_str = (if count_str = [] then ''0'' else count_str)
      in case int_of_str b count_str of
           None \<Rightarrow> read_count b inp
         | Some count \<Rightarrow> if count < 0 then read_count b inp else Some (count, inp))"

text \<open>Lines 125-141, \<^verbatim>\<open>for denom in self.chip_denoms\<close>: accumulate \<^verbatim>\<open>total_units\<close>.\<close>

fun read_units ::
  "builtins \<Rightarrow> int list \<Rightarrow> int \<Rightarrow> string list \<Rightarrow> (int \<times> string list) option" where
  "read_units b [] total_units inp = Some (total_units, inp)"
| "read_units b (denom # denoms) total_units inp =
     (case read_count b inp of
        None \<Rightarrow> None
      | Some (count, inp') \<Rightarrow> read_units b denoms (total_units + count * denom) inp')"

text \<open>
  Lines 120-164, the outer \<^verbatim>\<open>while True\<close> of a betting action: read the chips, convert
  them, and when the projected total bet exceeds the starting stack ask for confirmation;
  any reply but \<^verbatim>\<open>y\<close> starts the loop again with nothing changed, \<^verbatim>\<open>y\<close> sets
  \<^verbatim>\<open>went_negative_override\<close>. The result is the amount, the player as the loop leaves
  it, and the replies not yet read.
\<close>

function read_bet ::
  "builtins \<Rightarrow> game \<Rightarrow> player \<Rightarrow> string list \<Rightarrow> (int \<times> player \<times> string list) option" where
  "read_bet b g p inp =
     (case read_units b (chip_denoms g) 0 inp of
        None \<Rightarrow> None
      | Some (total_units, inp1) \<Rightarrow>
          (let amount_bonusly = total_units * base_unit g;
               projected_total_bet = total_bet p + amount_bonusly
           in if projected_total_bet > starting_stack p then
                (case inp1 of
                   [] \<Rightarrow> None
                 | reply # inp2 \<Rightarrow>
                     if str_lower b (str_strip b reply) \<noteq> ''y'' then read_bet b g p inp2
                     else Some (amount_bonusly, p\<lparr>went_negative_override := True\<rparr>, inp2))
              else Some (amount_bonusly, p, inp1)))"
  by pat_completeness auto
termination
proof (relation "measure (\<lambda>(b, g, p, inp). length inp)")
  show "wf (measure (\<lambda>(b, g, p, inp). length inp))" by simp
next
  fix b :: builtins and g :: game and p :: player and inp :: "string list"
    and x2 :: "int \<times> string list" and total_units :: int and inp1 :: "string list"
    and amount :: int and projected :: int and reply :: string and inp2 :: "string list"
  assume units: "read_units b (chip_denoms g) 0 inp = Some x2"
    and x2: "(total_units, inp1) = x2" and inp1: "inp1 = reply # inp2"
  have count: "length inp' < length xs" if "read_count b xs = Some (c, inp')"
    for xs c inp'
    using that
    by (induction xs) (auto simp: Let_def split: option.splits if_splits)
  have "length inp' \<le> length xs" if "read_units b ds t xs = Some (u, inp')"
    for ds t xs u inp'
    using that
  proof (induction ds arbitrary: t xs)
    case Nil
    then show ?case by simp
  next
    case (Cons d ds)
    then show ?case
      by (fastforce split: option.splits dest: count)
  qed
  with units x2 have "length inp1 \<le> length inp"
    by blast
  with inp1 show "((b, g, p, inp2), (b, g, p, inp)) \<in> measure (\<lambda>(b, g, p, inp). length inp)"
    by simp
qed

declare read_bet.simps [simp del]

text \<open>
  Lines 166-179: the player's ledger, the pot and the history take the amount. The player
  is the \<open>i\<close>-th of the list and is updated in its place.
\<close>

definition commit :: "game \<Rightarrow> nat \<Rightarrow> player \<Rightarrow> int \<Rightarrow> string \<Rightarrow> int \<Rightarrow> game" where
  "commit g i p round_no action amount_bonusly =
     (let p' = record_action p round_no action amount_bonusly;
          pot' = pot g + amount_bonusly
      in g\<lparr>players := (players g)[i := p'],
           pot := pot',
           history := history g @
             [\<lparr>h_round = round_no, h_player = name p', h_action = action,
               h_amount = amount_bonusly, h_pot_after = pot'\<rparr>]\<rparr>)"

text \<open>
  Lines 113-179, the body of \<^verbatim>\<open>for player in self.players\<close> for the player at index
  \<open>i\<close>. \<open>None\<close>: the replies ran out before the action was committed; every assignment
  of the body comes after its last read, so the game is then as it was.
\<close>

definition player_turn ::
  "builtins \<Rightarrow> int \<Rightarrow> game \<Rightarrow> nat \<Rightarrow> string list \<Rightarrow> (game \<times> string list) option" where
  "player_turn b round_no g i inp =
     (case inp of
        [] \<Rightarrow> None
      | reply # inp1 \<Rightarrow>
          (let p = players g ! i;
               action = str_lower b (str_strip b reply)
           in if action \<in> set [''bet'', ''raise'', ''all-in'', ''call''] then
                (case read_bet b g p inp1 of
                   None \<Rightarrow> None
                 | Some (amount_bonusly, p', inp2) \<Rightarrow>
                     Some (commit g i p' round_no action amount_bonusly, inp2))
              else Some (commit g i p round_no action 0, inp1)))"

text \<open>The \<^verbatim>\<open>for\<close> loop over the positions of \<^verbatim>\<open>self.players\<close>.\<close>

fun record_turns ::
  "builtins \<Rightarrow> int \<Rightarrow> game \<Rightarrow> nat list \<Rightarrow> string list \<Rightarrow> error option \<times> game \<times> string list" where
  "record_turns b round_no g [] inp = (None, g, inp)"
| "record_turns b round_no g (i # is) inp =
     (case player_turn b round_no g i inp of
        None \<Rightarrow> (Some EOFError, g, [])
      | Some (g', inp') \<Rightarrow> record_turns b round_no g' is inp')"

text \<open>
  \<^verbatim>\<open>Game.record_round\<close>: the round number is read once, every player takes a turn,
  and the counter moves on only when the loop has finished.
\<close>

definition record_round ::
  "builtins \<Rightarrow> game \<Rightarrow> string list \<Rightarrow> error option \<times> game \<times> string list" where
  "record_round b g inp =
     (case record_turns b (round g) g [0..<length (players g)] inp of
        (Some e, g', inp') \<Rightarrow> (Some e, g', inp')
      | (None, g', inp') \<Rightarrow> (None, g'\<lparr>round := round g' + 1\<rparr>, inp'))"

subsection \<open>Declaring the winner\<close>

text \<open>Lines 197-201, the loop that fills \<^verbatim>\<open>net_results\<close>.\<close>

fun net_loop :: "string \<Rightarrow> int \<Rightarrow> (string \<times> int) list \<Rightarrow> player list \<Rightarrow> (string \<times> int) list" where
  "net_loop winner_name pt results [] = results"
| "net_loop winner_name pt results (p # ps) =
     (let net = - total_bet p;
          net = (if name p = winner_name then net + pt else net)
      in net_loop winner_name pt (dict_set results (name p) net) ps)"

text \<open>
  \<^verbatim>\<open>Game.set_winner\<close>: the membership test comes first and raises before any
  assignment.
\<close>

definition set_winner :: "game \<Rightarrow> string \<Rightarrow> error option \<times> game" where
  "set_winner g winner_name =
     (if winner_name \<notin> set (map name (players g)) then (Some (ValueError winner_name), g)
      else (None, g\<lparr>winner := Some winner_name,
                    net_results := net_loop winner_name (pot g) [] (players g)\<rparr>))"

subsection \<open>The life of a game\<close>

text \<open>
  The operations that change a game, and a game taken through a list of them. A failed
  operation leaves the game in the state the exception finds it in. A game as the
  application creates it (\<^verbatim>\<open>_setup_game\<close>, lines 346-370) has one new player for each
  configured name and stack.
\<close>

datatype operation = RecordRound "string list" | SetWinner string

fun apply_operation :: "builtins \<Rightarrow> game \<Rightarrow> operation \<Rightarrow> game" where
  "apply_operation b g (RecordRound inp) = fst (snd (record_round b g inp))"
| "apply_operation b g (SetWinner winner_name) = snd (set_winner g winner_name)"

definition run_operations :: "builtins \<Rightarrow> game \<Rightarrow> operation list \<Rightarrow> game" where
  "run_operations b g ops = foldl (apply_operation b) g ops"

definition new_players :: "(string \<times> int) list \<Rightarrow> player list" where
  "new_players player_configs = map (\<lambda>(nm, st). Player_init nm st) player_configs"

subsection \<open>Settling a session\<close>

text \<open>
  One entry of the result of \<^verbatim>\<open>_calculate_settlements\<close>; the fields are the keys
  \<^verbatim>\<open>from\<close>, \<^verbatim>\<open>to\<close> and \<^verbatim>\<open>amount\<close> of the source's dict.
\<close>

record settlement =
  s_from :: string
  s_to :: string
  s_amount :: int

text \<open>
  The variables of the loop of lines 385-405: the two lists, which the loop updates in
  place, the cursors \<^verbatim>\<open>i\<close> and \<^verbatim>\<open>j\<close>, and the transfers appended so far.
\<close>

record sweep_state =
  debtors :: "(string \<times> int) list"
  creditors :: "(string \<times> int) list"
  cursor_i :: nat
  cursor_j :: nat
  settlements :: "settlement list"

text \<open>Line 387, the condition of the \<^verbatim>\<open>while\<close>.\<close>

definition running :: "sweep_state \<Rightarrow> bool" where
  "running s \<longleftrightarrow> cursor_i s < length (debtors s) \<and> cursor_j s < length (creditors s)"

text \<open>Lines 388-405, the body of the \<^verbatim>\<open>while\<close>, run in a state that satisfies its condition.\<close>

definition settle_step :: "sweep_state \<Rightarrow> sweep_state" where
  "settle_step s =
     (case (debtors s ! cursor_i s, creditors s ! cursor_j s) of
        ((debtor_name, debt_amt), (creditor_name, cred_amt)) \<Rightarrow>
          (let amount = min debt_amt cred_amt;
               s1 = s\<lparr>settlements := settlements s @
                       [\<lparr>s_from = debtor_name, s_to = creditor_name, s_amount = amount\<rparr>]\<rparr>;
               debt_amt = debt_amt - amount;
               cred_amt = cred_amt - amount;
               s2 = (if debt_amt = 0 then s1\<lparr>cursor_i := cursor_i s1 + 1\<rparr>
                     else s1\<lparr>debtors := (debtors s1)[cursor_i s1 := (debtor_name, debt_amt)]\<rparr>)
           in if cred_amt = 0 then s2\<lparr>cursor_j := cursor_j s2 + 1\<rparr>
              else s2\<lparr>creditors := (creditors s2)[cursor_j s2 := (creditor_name, cred_amt)]\<rparr>))"

text \<open>Lines 385-407: the cursors start at 0 with no transfer, and the loop runs while its
  condition holds; the transfers are the result.\<close>

function settle_loop :: "sweep_state \<Rightarrow> settlement list" where
  "settle_loop s = (if running s then settle_loop (settle_step s) else settlements s)"
  by pat_completeness auto
termination
proof (relation "measure (\<lambda>s. (length (debtors s) - cursor_i s) + (length (creditors s) - cursor_j s))")
  show "wf (measure (\<lambda>s. (length (debtors s) - cursor_i s) + (length (creditors s) - cursor_j s)))"
    by simp
next
  fix s :: sweep_state
  assume r: "running s"
  obtain dn da where d: "debtors s ! cursor_i s = (dn, da)" by (cases "debtors s ! cursor_i s")
  obtain cn ca where c: "creditors s ! cursor_j s = (cn, ca)" by (cases "creditors s ! cursor_j s")
  have "da - min da ca = 0 \<or> ca - min da ca = 0" by (simp add: min_def)
  then have "length (debtors (settle_step s)) = length (debtors s)
    \<and> length (creditors (settle_step s)) = length (creditors s)
    \<and> cursor_i s \<le> cursor_i (settle_step s) \<and> cursor_j s \<le> cursor_j (settle_step s)
    \<and> (cursor_i (settle_step s) = cursor_i s + 1 \<or> cursor_j (settle_step s) = cursor_j s + 1)"
    by (auto simp: settle_step_def d c Let_def)
  with r
  show "(settle_step s, s)
      \<in> measure (\<lambda>s. (length (debtors s) - cursor_i s) + (length (creditors s) - cursor_j s))"
    unfolding running_def by (simp; linarith)
qed

declare settle_loop.simps [simp del]

text \<open>Lines 375-386: the two lists in the order of the mapping, magnitudes for the debtors.\<close>

definition initial_state :: "(string \<times> int) list \<Rightarrow> sweep_state" where
  "initial_state net_totals =
     \<lparr>debtors = map (\<lambda>(nm, net). (nm, - net)) (filter (\<lambda>(nm, net). net < 0) net_totals),
      creditors = map (\<lambda>(nm, net). (nm, net)) (filter (\<lambda>(nm, net). net > 0) net_totals),
      cursor_i = 0, cursor_j = 0, settlements = []\<rparr>"

text \<open>\<^verbatim>\<open>BonuslyPokerApp._calculate_settlements\<close>\<close>

definition calculate_settlements :: "(string \<times> int) list \<Rightarrow> settlement list" where
  "calculate_settlements net_totals = settle_loop (initial_state net_totals)"

subsection \<open>Chip mapping\<close>

text \<open>
  Lines 318-333 of \<^verbatim>\<open>_setup_game\<close> compute the base unit from \<^verbatim>\<open>min_stack\<close>, the
  least configured stack, with \<^verbatim>\<open>int(min_stack * 0.25)\<close>: the integer is converted to
  a double, multiplied by 0.25 and truncated. The conversion rounds to 53 significant bits,
  ties to even, and raises \<^verbatim>\<open>OverflowError\<close> when the rounded value reaches
  \<open>2^1024\<close>. A double so obtained has an integral value, the product with 0.25 is
  exact, and \<^verbatim>\<open>int\<close> truncates toward zero; all of it is integer arithmetic.

  \<open>bit_length\<close> is the number of binary digits of a positive integer.
\<close>

function bit_length :: "int \<Rightarrow> nat" where
  "bit_length n = (if n \<le> 0 then 0 else Suc (bit_length (n div 2)))"
  by pat_completeness auto
termination
  by (relation "measure nat") simp_all

declare bit_length.simps [simp del]

text \<open>The double nearest to a magnitude, ties to even, with no bound on the exponent.\<close>

definition round_to_double :: "int \<Rightarrow> int" where
  "round_to_double m =
     (let e = bit_length m
      in if e \<le> 53 then m
         else (let sh = e - 53;
                   q = m div 2 ^ sh;
                   r = m mod 2 ^ sh;
                   half = 2 ^ (sh - 1);
                   q' = (if r > half \<or> (r = half \<and> odd q) then q + 1 else q)
               in q' * 2 ^ sh))"

text \<open>The value of the double an integer is converted to.\<close>

definition float_of_int :: "int \<Rightarrow> error + int" where
  "float_of_int n =
     (let m = round_to_double \<bar>n\<bar>
      in if 2 ^ 1024 \<le> m then Inl OverflowError else Inr (sgn n * m))"

text \<open>\<^verbatim>\<open>int(x * 0.25)\<close> for a double \<open>x\<close> of integral value.\<close>

definition int_of_quarter :: "int \<Rightarrow> int" where
  "int_of_quarter x = sgn x * (\<bar>x\<bar> div 4)"

text \<open>
  Lines 318-333: the base unit and the denominations that \<^verbatim>\<open>_setup_game\<close> passes to
  \<^verbatim>\<open>Game.__init__\<close>. \<^verbatim>\<open>//\<close> is floor division. The source's local
  \<^verbatim>\<open>base_unit\<close> and \<^verbatim>\<open>chip_denoms\<close> are \<open>unit\<close> and \<open>denoms\<close> here, the
  source's names being the fields of the game.
\<close>

definition chip_mapping :: "int \<Rightarrow> error + (int \<times> int list)" where
  "chip_mapping min_stack =
     (case float_of_int min_stack of
        Inl e \<Rightarrow> Inl e
      | Inr x \<Rightarrow>
          (let chip_100_value = int_of_quarter x;
               unit = chip_100_value div 100;
               unit = (if unit < 1 then max 1 (min_stack div 100) else unit);
               denoms = [1, 5, 25, 100]
           in Inr (unit, denoms)))"

subsection \<open>A sample instance of the builtins\<close>

text \<open>
  For the concrete runs below: \<^verbatim>\<open>strip\<close> on spaces, \<^verbatim>\<open>lower\<close> on the letters A-Z
  and \<^verbatim>\<open>int\<close> on plain decimal numerals with an optional minus sign. No theorem about
  the program depends on them.
\<close>

definition ascii_strip :: "string \<Rightarrow> string" where
  "ascii_strip s =
     rev (dropWhile (\<lambda>c. c = CHR '' '') (rev (dropWhile (\<lambda>c. c = CHR '' '') s)))"

definition ascii_lower :: "string \<Rightarrow> string" where
  "ascii_lower s =
     map (\<lambda>c. let n = (of_char c :: nat) in if 65 \<le> n \<and> n \<le> 90 then char_of (n + 32) else c) s"

fun digits_value :: "int \<Rightarrow> string \<Rightarrow> int option" where
  "digits_value acc [] = Some acc"
| "digits_value acc (c # cs) =
     (let n = (of_char c :: nat)
      in if 48 \<le> n \<and> n \<le> 57 then digits_value (10 * acc + int (n - 48)) cs else None)"

definition ascii_int :: "string \<Rightarrow> int option" where
  "ascii_int s =
     (case s of
        [] \<Rightarrow> None
      | c # cs \<Rightarrow>
          if c = CHR ''-'' then (if cs = [] then None else map_option uminus (digits_value 0 cs))
          else digits_value 0 s)"

definition ascii_builtins :: builtins where
  "ascii_builtins = \<lparr>str_strip = ascii_strip, str_lower = ascii_lower, int_of_str = ascii_int\<rparr>"

subsection \<open>Invariants\<close>

text \<open>The pot is the sum of the amounts of the history.\<close>

definition pot_matches_history :: "game \<Rightarrow> bool" where
  "pot_matches_history g \<longleftrightarrow> pot g = sum_list (map h_amount (history g))"

text \<open>The pot is the sum of what the players have bet.\<close>

definition pot_matches_bets :: "game \<Rightarrow> bool" where
  "pot_matches_bets g \<longleftrightarrow> pot g = sum_list (map total_bet (players g))"

text \<open>
  The net result of one player as lines 198-200 compute it from the winner's name and the
  pot.
\<close>

definition net_of :: "string \<Rightarrow> int \<Rightarrow> player \<Rightarrow> int" where
  "net_of winner_name pt p = (if name p = winner_name then pt - total_bet p else - total_bet p)"

subsection \<open>Vocabulary of the settlement properties\<close>

text \<open>
  The loop seen from the parts of the two lists at and after the cursors: the entries
  before a cursor are never read again.
\<close>

function sweep :: "(string \<times> int) list \<Rightarrow> (string \<times> int) list \<Rightarrow> settlement list" where
  "sweep [] cs = []"
| "sweep (d # ds) [] = []"
| "sweep ((dn, da) # ds) ((cn, ca) # cs) =
     \<lparr>s_from = dn, s_to = cn, s_amount = min da ca\<rparr> #
     sweep (if da - min da ca = 0 then ds else (dn, da - min da ca) # ds)
           (if ca - min da ca = 0 then cs else (cn, ca - min da ca) # cs)"
  by pat_completeness auto
termination
proof (relation "measure (\<lambda>(ds, cs). length ds + length cs)")
  show "wf (measure (\<lambda>(ds, cs). length ds + length cs))" by simp
next
  fix dn :: string and da :: int and ds :: "(string \<times> int) list"
    and cn :: string and ca :: int and cs :: "(string \<times> int) list"
  have "da - min da ca = 0 \<or> ca - min da ca = 0"
    by (cases "da \<le> ca") simp_all
  then show "((if da - min da ca = 0 then ds else (dn, da - min da ca) # ds,
               if ca - min da ca = 0 then cs else (cn, ca - min da ca) # cs),
              (dn, da) # ds, (cn, ca) # cs)
             \<in> measure (\<lambda>(ds, cs). length ds + length cs)"
    by auto
qed

text \<open>Every magnitude of a list is positive.\<close>

definition all_positive :: "(string \<times> int) list \<Rightarrow> bool" where
  "all_positive xs \<longleftrightarrow> list_all (\<lambda>(nm, amt). 0 < amt) xs"

text \<open>
  What the entries of a list under one name add up to, and what the transfers of a list
  take from one name and give to one name.
\<close>

definition owed :: "(string \<times> int) list \<Rightarrow> string \<Rightarrow> int" where
  "owed xs nm = sum_list (map snd (filter (\<lambda>(nm', amt). nm' = nm) xs))"

definition paid_by :: "settlement list \<Rightarrow> string \<Rightarrow> int" where
  "paid_by ts nm = sum_list (map s_amount (filter (\<lambda>t. s_from t = nm) ts))"

definition received_by :: "settlement list \<Rightarrow> string \<Rightarrow> int" where
  "received_by ts nm = sum_list (map s_amount (filter (\<lambda>t. s_to t = nm) ts))"

text \<open>
  Running balances, one for each key of the mapping, and one transfer applied to them.
  \<open>apply_as_stated\<close> is the wording of the specification: the amount is subtracted from
  the debtor's balance and added to the creditor's. \<open>apply_payment\<close> is the payment seen
  from the net totals: the debtor's balance, which is negative, rises by what he pays and
  the creditor's falls by what he receives.
\<close>

definition apply_as_stated :: "(string \<times> int) list \<Rightarrow> settlement \<Rightarrow> (string \<times> int) list" where
  "apply_as_stated balances t =
     map (\<lambda>(nm, bal). (nm, bal - (if nm = s_from t then s_amount t else 0)
                                 + (if nm = s_to t then s_amount t else 0))) balances"

definition apply_payment :: "(string \<times> int) list \<Rightarrow> settlement \<Rightarrow> (string \<times> int) list" where
  "apply_payment balances t =
     map (\<lambda>(nm, bal). (nm, bal + (if nm = s_from t then s_amount t else 0)
                                 - (if nm = s_to t then s_amount t else 0))) balances"

subsection \<open>Example games\<close>

text \<open>
  Two players A and B with 100 each and a base unit of 1; in round 1 A bets four 5-chips
  and B calls with four 5-chips. The second game has two players who are both called A
  (\<^verbatim>\<open>_setup_game\<close> asks for the names and does not compare them); the first bets 10
  and the second 20.
\<close>

definition two_player_setup :: game where
  "two_player_setup =
     Game_init (new_players [(''A'', 100), (''B'', 100)]) ''A'' ''B'' ''A'' 1 [1, 5, 25, 100]"

definition scenario_round :: "string list" where
  "scenario_round = [''bet'', ''0'', ''4'', ''0'', ''0'', ''call'', ''0'', ''4'', ''0'', ''0'']"

definition scenario_game :: game where
  "scenario_game = run_operations ascii_builtins two_player_setup [RecordRound scenario_round]"

definition twin_round :: "string list" where
  "twin_round = [''bet'', ''0'', ''2'', ''0'', ''0'', ''bet'', ''0'', ''4'', ''0'', ''0'']"

definition twin_game :: game where
  "twin_game =
     run_operations ascii_builtins
       (Game_init (new_players [(''A'', 100), (''A'', 100)]) ''A'' ''A'' ''A'' 1 [1, 5, 25, 100])
       [RecordRound twin_round]"

text \<open>
  What a turn leaves behind, for the player at position 0: the pot, that player's bet log,
  stack and flag, the amounts of the history, and the replies not read.
\<close>

definition turn_outcome ::
  "(game \<times> string list) option
     \<Rightarrow> (int \<times> (int \<times> int) list \<times> int \<times> bool \<times> int list \<times> string list) option" where
  "turn_outcome res =
     map_option (\<lambda>(g, rest). (pot g, bets (players g ! 0), stack (players g ! 0),
                               went_negative_override (players g ! 0),
                               map h_amount (history g), rest)) res"

text \<open>The net totals of a session of five players, one of them even.\<close>

definition session_totals :: "(string \<times> int) list" where
  "session_totals = [(''A'', 10), (''B'', - 25), (''C'', 0), (''D'', 30), (''E'', - 15)]"

section \<open>Properties\<close>

subsection \<open>Player ledger\<close>

lemma total_bet_record_action:
  "total_bet (record_action p r a amt) = total_bet p + amt"
  by (simp add: total_bet_def record_action_def)

lemma record_actions_ledger:
  "stack (record_actions p calls) + total_bet (record_actions p calls) = stack p + total_bet p
   \<and> starting_stack (record_actions p calls) = starting_stack p
   \<and> length (bets (record_actions p calls)) = length (bets p) + length calls
   \<and> length (actions (record_actions p calls)) = length (actions p) + length calls"
proof (induction calls arbitrary: p)
  case Nil
  show ?case by simp
next
  case (Cons c calls)
  obtain r a amt where c: "c = (r, a, amt)" by (cases c)
  show ?case
    using Cons.IH [of "record_action p r a amt"]
    by (simp add: c total_bet_record_action) (simp add: record_action_def)
qed

text \<open>
  Claim C5. A player created by \<^verbatim>\<open>Player.__init__\<close> and taken through any sequence of
  \<^verbatim>\<open>record_action\<close> calls, with any integer amounts (negative ones included), has
  \<open>stack = starting_stack - total_bet\<close> after every call; one call appends exactly the
  entry \<open>(round, amount)\<close> to the bet log and \<open>(round, action)\<close> to the action log.
  \<^const>\<open>record_action\<close> returns a player for every argument: the method has no raise and
  the model no error value.
\<close>

theorem record_action_balance:
  "stack (record_actions (Player_init nm st) calls)
     = starting_stack (record_actions (Player_init nm st) calls)
       - total_bet (record_actions (Player_init nm st) calls)
   \<and> length (bets (record_actions (Player_init nm st) calls)) = length calls
   \<and> length (actions (record_actions (Player_init nm st) calls)) = length calls
   \<and> bets (record_action p r a amt) = bets p @ [(r, amt)]
   \<and> actions (record_action p r a amt) = actions p @ [(r, a)]
   \<and> stack (record_action p r a amt) = stack p - amt
   \<and> total_bet (record_action p r a amt) = total_bet p + amt"
proof -
  have init: "stack (Player_init nm st) = st" "total_bet (Player_init nm st) = 0"
    "starting_stack (Player_init nm st) = st" "bets (Player_init nm st) = []"
    "actions (Player_init nm st) = []"
    by (simp_all add: Player_init_def total_bet_def)
  from record_actions_ledger [of "Player_init nm st" calls]
  have "stack (record_actions (Player_init nm st) calls)
          = starting_stack (record_actions (Player_init nm st) calls)
            - total_bet (record_actions (Player_init nm st) calls)"
    and "length (bets (record_actions (Player_init nm st) calls)) = length calls"
    and "length (actions (record_actions (Player_init nm st) calls)) = length calls"
    by (simp_all add: init)
  moreover have "bets (record_action p r a amt) = bets p @ [(r, amt)]"
    "actions (record_action p r a amt) = actions p @ [(r, a)]"
    "stack (record_action p r a amt) = stack p - amt"
    by (simp_all add: record_action_def)
  ultimately show ?thesis
    by (simp add: total_bet_record_action)
qed

text \<open>Starting with 100: a bet of 30, a check, and an amount of -5.\<close>

theorem record_action_balance_witness:
  "stack (record_actions (Player_init ''A'' 100) [(1, ''bet'', 30), (2, ''check'', 0), (3, ''bet'', - 5)]) = 75
   \<and> total_bet (record_actions (Player_init ''A'' 100) [(1, ''bet'', 30), (2, ''check'', 0), (3, ''bet'', - 5)]) = 25
   \<and> length (bets (record_actions (Player_init ''A'' 100) [(1, ''bet'', 30), (2, ''check'', 0), (3, ''bet'', - 5)])) = 3"
proof -
  let ?p = "record_actions (Player_init ''A'' 100) [(1, ''bet'', 30), (2, ''check'', 0), (3, ''bet'', - 5)]"
  have v: "total_bet ?p = 25" "starting_stack ?p = 100"
    by code_simp+
  from record_action_balance [of "''A''" 100 "[(1, ''bet'', 30), (2, ''check'', 0), (3, ''bet'', - 5)]"]
  have "stack ?p = starting_stack ?p - total_bet ?p" and "length (bets ?p) = length [(1::int, ''bet'', 30::int), (2, ''check'', 0), (3, ''bet'', - 5)]"
    by blast+
  with v show ?thesis by simp
qed

subsection \<open>Pot and history\<close>

lemma sum_list_map_update:
  fixes f :: "'a \<Rightarrow> int"
  shows "i < length xs \<Longrightarrow> sum_list (map f (xs[i := y])) = sum_list (map f xs) - f (xs ! i) + f y"
proof (induction xs arbitrary: i)
  case Nil
  then show ?case by simp
next
  case (Cons x xs)
  then show ?case by (cases i) simp_all
qed

lemma read_bet_player:
  "read_bet b g p inp = Some (amt, p', inp') \<Longrightarrow>
     p' = p \<or> p' = p\<lparr>went_negative_override := True\<rparr>"
proof (induction b g p inp rule: read_bet.induct)
  case (1 b g p inp)
  from "1.prems" obtain total_units inp1 where
    units: "read_units b (chip_denoms g) 0 inp = Some (total_units, inp1)"
    by (subst (asm) read_bet.simps) (simp split: option.splits prod.splits)
  show ?case
  proof (cases "total_bet p + total_units * base_unit g > starting_stack p")
    case False
    with "1.prems" units show ?thesis
      by (subst (asm) read_bet.simps) (simp add: Let_def)
  next
    case True
    show ?thesis
    proof (cases inp1)
      case Nil
      with "1.prems" units True show ?thesis
        by (subst (asm) read_bet.simps) (simp add: Let_def)
    next
      case (Cons reply inp2)
      show ?thesis
      proof (cases "str_lower b (str_strip b reply) = ''y''")
        case yes: True
        with "1.prems" units True Cons show ?thesis
          by (subst (asm) read_bet.simps) (simp add: Let_def)
      next
        case no: False
        with "1.prems" units True Cons have "read_bet b g p inp2 = Some (amt, p', inp')"
          by (subst (asm) read_bet.simps) (simp add: Let_def)
        with "1.IH" [OF units refl refl refl _ Cons no] True show ?thesis
          by simp
      qed
    qed
  qed
qed

lemma commit_pot: "pot (commit g i p r a amt) = pot g + amt"
  by (simp add: commit_def Let_def)

lemma commit_history:
  "history (commit g i p r a amt) =
     history g @ [\<lparr>h_round = r, h_player = name p, h_action = a, h_amount = amt,
                   h_pot_after = pot g + amt\<rparr>]"
  by (simp add: commit_def Let_def record_action_def)

lemma commit_players:
  "players (commit g i p r a amt) = (players g)[i := record_action p r a amt]"
  by (simp add: commit_def Let_def)

lemma player_turn_commits:
  assumes "player_turn b r g i inp = Some (g', inp')"
  shows "\<exists>p a amt. g' = commit g i p r a amt
       \<and> (p = players g ! i \<or> p = (players g ! i)\<lparr>went_negative_override := True\<rparr>)"
proof (cases inp)
  case Nil
  with assms show ?thesis by (simp add: player_turn_def)
next
  case (Cons reply inp1)
  define a where "a = str_lower b (str_strip b reply)"
  show ?thesis
  proof (cases "a \<in> set [''bet'', ''raise'', ''all-in'', ''call'']")
    case False
    with assms Cons have "g' = commit g i (players g ! i) r a 0"
      by (simp add: player_turn_def a_def)
    then show ?thesis by blast
  next
    case True
    with assms Cons obtain amt q where
      bet: "read_bet b g (players g ! i) inp1 = Some (amt, q, inp')"
      and g': "g' = commit g i q r a amt"
      by (auto simp add: player_turn_def a_def Let_def split: option.splits)
    from read_bet_player [OF bet] g' show ?thesis by blast
  qed
qed

lemma commit_pot_matches_history:
  "pot_matches_history g \<Longrightarrow> pot_matches_history (commit g i p r a amt)"
  by (simp add: pot_matches_history_def commit_pot commit_history)

lemma record_turns_pot_matches_history:
  "pot_matches_history g \<Longrightarrow> pot_matches_history (fst (snd (record_turns b r g is inp)))"
proof (induction "is" arbitrary: g inp)
  case Nil
  then show ?case by simp
next
  case (Cons i "is")
  show ?case
  proof (cases "player_turn b r g i inp")
    case None
    with Cons.prems show ?thesis by simp
  next
    case (Some res)
    obtain g' inp' where res: "res = (g', inp')" by (cases res)
    from Some res obtain p a amt where "g' = commit g i p r a amt"
      using player_turn_commits by blast
    with Cons.prems have "pot_matches_history g'"
      by (simp add: commit_pot_matches_history)
    from Cons.IH [OF this] Some res show ?thesis by simp
  qed
qed

lemma record_round_pot_matches_history:
  "pot_matches_history g \<Longrightarrow> pot_matches_history (fst (snd (record_round b g inp)))"
  using record_turns_pot_matches_history [of g b "round g" "[0..<length (players g)]" inp]
  by (auto simp: record_round_def pot_matches_history_def split: prod.splits option.splits)

lemma set_winner_pot_history:
  "pot (snd (set_winner g w)) = pot g \<and> history (snd (set_winner g w)) = history g
   \<and> players (snd (set_winner g w)) = players g"
  by (simp add: set_winner_def)

lemma apply_operation_pot_matches_history:
  "pot_matches_history g \<Longrightarrow> pot_matches_history (apply_operation b g op)"
  by (cases op)
     (simp_all add: record_round_pot_matches_history,
      simp add: pot_matches_history_def set_winner_pot_history)

lemma run_operations_pot_matches_history:
  "pot_matches_history g \<Longrightarrow> pot_matches_history (run_operations b g ops)"
  unfolding run_operations_def
  by (induction ops arbitrary: g) (simp_all add: apply_operation_pot_matches_history)

text \<open>
  Claim C4. A game made by \<^verbatim>\<open>Game.__init__\<close> has pot 0 and an empty history; after
  any list of operations (rounds recorded from any replies, cut short by the end of the
  replies or not, and winner declarations, accepted or not) the pot is the sum of the
  amounts of the history entries. A turn either raises before it changes anything or
  commits once, and a commit adds to the pot the amount of the one entry it appends.
\<close>

theorem pot_is_history_sum:
  "pot (Game_init ps d bb sb bu denoms) = 0
   \<and> history (Game_init ps d bb sb bu denoms) = []
   \<and> pot (run_operations b (Game_init ps d bb sb bu denoms) ops)
       = sum_list (map h_amount (history (run_operations b (Game_init ps d bb sb bu denoms) ops)))
   \<and> (player_turn b r g i inp = None
       \<or> (\<exists>p a amt inp'. player_turn b r g i inp = Some (commit g i p r a amt, inp')))
   \<and> pot (commit g i p r a amt) = pot g + amt
   \<and> history (commit g i p r a amt)
       = history g @ [\<lparr>h_round = r, h_player = name p, h_action = a, h_amount = amt,
                       h_pot_after = pot g + amt\<rparr>]"
proof -
  have init: "pot (Game_init ps d bb sb bu denoms) = 0"
    "history (Game_init ps d bb sb bu denoms) = []"
    by (simp_all add: Game_init_def)
  then have "pot_matches_history (Game_init ps d bb sb bu denoms)"
    by (simp add: pot_matches_history_def)
  then have "pot_matches_history (run_operations b (Game_init ps d bb sb bu denoms) ops)"
    by (rule run_operations_pot_matches_history)
  moreover have "player_turn b r g i inp = None
       \<or> (\<exists>p a amt inp'. player_turn b r g i inp = Some (commit g i p r a amt, inp'))"
  proof (cases "player_turn b r g i inp")
    case None
    then show ?thesis by simp
  next
    case (Some res)
    obtain g' inp' where res: "res = (g', inp')" by (cases res)
    from player_turn_commits [of b r g i inp g' inp'] Some res
    obtain q a' amt' where "g' = commit g i q r a' amt'" by blast
    with Some res show ?thesis by blast
  qed
  ultimately show ?thesis
    using init by (simp add: pot_matches_history_def commit_pot commit_history)
qed

text \<open>The example game after its round, a rejected and an accepted winner, and a cut round.\<close>

theorem pot_is_history_sum_witness:
  "pot (run_operations ascii_builtins two_player_setup
          [RecordRound scenario_round, SetWinner ''Carol'', SetWinner ''A'',
           RecordRound [''raise'', ''0'', ''1'', ''0'', ''0'', ''call'']]) = 45
   \<and> sum_list (map h_amount (history (run_operations ascii_builtins two_player_setup
          [RecordRound scenario_round, SetWinner ''Carol'', SetWinner ''A'',
           RecordRound [''raise'', ''0'', ''1'', ''0'', ''0'', ''call'']]))) = 45"
proof -
  let ?ops = "[RecordRound scenario_round, SetWinner ''Carol'', SetWinner ''A'',
           RecordRound [''raise'', ''0'', ''1'', ''0'', ''0'', ''call'']]"
  have v: "pot (run_operations ascii_builtins two_player_setup ?ops) = 45"
    by code_simp
  from pot_is_history_sum [of "new_players [(''A'', 100), (''B'', 100)]" "''A''" "''B''" "''A''" 1
      "[1, 5, 25, 100]" ascii_builtins ?ops]
  have "pot (run_operations ascii_builtins two_player_setup ?ops)
      = sum_list (map h_amount (history (run_operations ascii_builtins two_player_setup ?ops)))"
    unfolding two_player_setup_def by blast
  with v show ?thesis by simp
qed

subsection \<open>Bets, names and the winner's net results\<close>

lemma commit_names:
  assumes "i < length (players g)" "name p = name (players g ! i)"
  shows "map name (players (commit g i p r a amt)) = map name (players g)"
proof -
  have "name (record_action p r a amt) = name (players g ! i)"
    using assms(2) by (simp add: record_action_def)
  then have "(map name (players g))[i := name (record_action p r a amt)] = map name (players g)"
    using assms(1) by (simp add: list_update_same_conv)
  then show ?thesis
    by (simp add: commit_players map_update)
qed

lemma commit_pot_matches_bets:
  assumes "i < length (players g)" "total_bet p = total_bet (players g ! i)"
    and "pot_matches_bets g"
  shows "pot_matches_bets (commit g i p r a amt)"
  using assms
  by (simp add: pot_matches_bets_def commit_pot commit_players sum_list_map_update
      total_bet_record_action)

lemma player_turn_bets:
  assumes "player_turn b r g i inp = Some (g', inp')" "i < length (players g)"
  shows "map name (players g') = map name (players g)
         \<and> (pot_matches_bets g \<longrightarrow> pot_matches_bets g')"
proof -
  from player_turn_commits [OF assms(1)] obtain p a amt where
    g': "g' = commit g i p r a amt"
    and p: "p = players g ! i \<or> p = (players g ! i)\<lparr>went_negative_override := True\<rparr>"
    by blast
  from p have "name p = name (players g ! i)" "total_bet p = total_bet (players g ! i)"
    by (auto simp: total_bet_def)
  with assms(2) g' show ?thesis
    by (simp add: commit_names commit_pot_matches_bets)
qed

lemma record_turns_bets:
  assumes "\<forall>i\<in>set is. i < length (players g)"
  shows "map name (players (fst (snd (record_turns b r g is inp)))) = map name (players g)
         \<and> (pot_matches_bets g \<longrightarrow> pot_matches_bets (fst (snd (record_turns b r g is inp))))"
  using assms
proof (induction "is" arbitrary: g inp)
  case Nil
  then show ?case by simp
next
  case (Cons i "is")
  show ?case
  proof (cases "player_turn b r g i inp")
    case None
    then show ?thesis by simp
  next
    case (Some res)
    obtain g' inp' where res: "res = (g', inp')" by (cases res)
    from Cons.prems have i: "i < length (players g)" by simp
    from player_turn_bets [OF _ i] Some res
    have step: "map name (players g') = map name (players g)"
      "pot_matches_bets g \<longrightarrow> pot_matches_bets g'"
      by blast+
    from step(1) have "length (players g') = length (players g)"
      by (metis length_map)
    with Cons.prems have "\<forall>i\<in>set is. i < length (players g')" by simp
    from Cons.IH [OF this, of inp'] step Some res show ?thesis by simp
  qed
qed

lemma record_round_bets:
  "map name (players (fst (snd (record_round b g inp)))) = map name (players g)
   \<and> (pot_matches_bets g \<longrightarrow> pot_matches_bets (fst (snd (record_round b g inp))))"
proof -
  obtain e g' inp' where rt: "record_turns b (round g) g [0..<length (players g)] inp = (e, g', inp')"
    by (cases "record_turns b (round g) g [0..<length (players g)] inp")
  have "\<forall>i\<in>set [0..<length (players g)]. i < length (players g)" by simp
  from record_turns_bets [OF this, of b "round g" inp] rt
  have "map name (players g') = map name (players g)"
    "pot_matches_bets g \<longrightarrow> pot_matches_bets g'"
    by simp_all
  with rt show ?thesis
    by (cases e) (simp_all add: record_round_def pot_matches_bets_def)
qed

lemma apply_operation_bets:
  "map name (players (apply_operation b g op)) = map name (players g)
   \<and> (pot_matches_bets g \<longrightarrow> pot_matches_bets (apply_operation b g op))"
proof (cases op)
  case (RecordRound inp)
  then show ?thesis using record_round_bets [of b g inp] by simp
next
  case (SetWinner w)
  then show ?thesis by (simp add: pot_matches_bets_def set_winner_pot_history)
qed

lemma run_operations_bets:
  "map name (players (run_operations b g ops)) = map name (players g)
   \<and> (pot_matches_bets g \<longrightarrow> pot_matches_bets (run_operations b g ops))"
  unfolding run_operations_def
proof (induction ops arbitrary: g)
  case Nil
  show ?case by simp
next
  case (Cons op ops)
  from Cons.IH [of "apply_operation b g op"] apply_operation_bets [of b g op]
  show ?case by simp
qed

lemma new_players_fresh:
  "map name (new_players cfgs) = map fst cfgs
   \<and> sum_list (map total_bet (new_players cfgs)) = 0"
  by (induction cfgs) (auto simp: new_players_def Player_init_def total_bet_def)

lemma dict_set_new: "k \<notin> fst ` set d \<Longrightarrow> dict_set d k v = d @ [(k, v)]"
  by (induction d k v rule: dict_set.induct) auto

lemma net_loop_distinct:
  assumes "distinct (map name ps)" "\<forall>p\<in>set ps. name p \<notin> fst ` set results"
  shows "net_loop w pt results ps = results @ map (\<lambda>p. (name p, net_of w pt p)) ps"
  using assms
proof (induction ps arbitrary: results)
  case Nil
  show ?case by simp
next
  case (Cons p ps)
  from Cons.prems have new: "name p \<notin> fst ` set results" by simp
  from Cons.prems have "name p \<notin> name ` set ps" by simp
  then have "name q \<noteq> name p" if "q \<in> set ps" for q
    using that by (metis imageI)
  with Cons.prems
  have next_new: "\<forall>q\<in>set ps. name q \<notin> fst ` set (results @ [(name p, net_of w pt p)])"
    by simp
  from Cons.prems have "distinct (map name ps)" by simp
  from Cons.IH [OF this next_new]
  have "net_loop w pt (results @ [(name p, net_of w pt p)]) ps
          = results @ map (\<lambda>p. (name p, net_of w pt p)) (p # ps)"
    by simp
  moreover have "net_loop w pt results (p # ps)
          = net_loop w pt (dict_set results (name p) (net_of w pt p)) ps"
    by (simp add: Let_def net_of_def)
  moreover from new
  have "dict_set results (name p) (net_of w pt p) = results @ [(name p, net_of w pt p)]"
    by (rule dict_set_new)
  ultimately show ?case
    by simp
qed

lemma winner_share:
  "distinct (map name ps) \<Longrightarrow> w \<in> set (map name ps) \<Longrightarrow>
     sum_list (map (net_of w pt) ps) = pt - sum_list (map total_bet ps)"
proof (induction ps)
  case Nil
  then show ?case by simp
next
  case (Cons p ps)
  show ?case
  proof (cases "name p = w")
    case True
    from Cons.prems have "name p \<notin> name ` set ps" by simp
    with True have "\<forall>q\<in>set ps. name q \<noteq> w" by (metis imageI)
    then have "sum_list (map (net_of w pt) ps) = - sum_list (map total_bet ps)"
      by (induction ps) (simp_all add: net_of_def)
    moreover from True have "net_of w pt p = pt - total_bet p"
      by (simp add: net_of_def)
    ultimately show ?thesis by simp
  next
    case False
    then have "net_of w pt p = - total_bet p"
      by (simp add: net_of_def)
    with False Cons.prems Cons.IH show ?thesis by simp
  qed
qed

lemma set_winner_distinct:
  assumes "distinct (map name (players g))" "w \<in> set (map name (players g))"
  shows "set_winner g w =
           (None, g\<lparr>winner := Some w,
                    net_results := map (\<lambda>p. (name p, net_of w (pot g) p)) (players g)\<rparr>)"
  using assms net_loop_distinct [of "players g" "[]" w "pot g"]
  by (simp add: set_winner_def)

text \<open>
  Claim C1, amended. In a game whose players have pairwise distinct names,
  \<^verbatim>\<open>set_winner\<close> with the name of a player succeeds, stores that name, and stores
  net results with exactly one key for each player, in the order of the players: the
  winner's is \<open>pot - total_bet\<close>, every other player's is \<open>- total_bet\<close>.
\<close>

theorem set_winner_net_results:
  assumes "distinct (map name (players g))" and "winner_name \<in> set (map name (players g))"
  shows "fst (set_winner g winner_name) = None
    \<and> winner (snd (set_winner g winner_name)) = Some winner_name
    \<and> map fst (net_results (snd (set_winner g winner_name))) = map name (players g)
    \<and> (\<forall>p\<in>set (players g).
          dict_get (net_results (snd (set_winner g winner_name))) (name p)
            = Some (if name p = winner_name then pot g - total_bet p else - total_bet p))"
proof -
  let ?nr = "map (\<lambda>p. (name p, net_of winner_name (pot g) p)) (players g)"
  have keys: "map fst ?nr = map name (players g)"
    by (simp add: comp_def)
  have "dict_get ?nr (name p) = Some (net_of winner_name (pot g) p)" if "p \<in> set (players g)" for p
  proof -
    from that have "(name p, net_of winner_name (pot g) p) \<in> set ?nr" by auto
    moreover from assms(1) have "distinct (map fst ?nr)" by (simp add: comp_def)
    ultimately show ?thesis
      unfolding dict_get_def by (rule map_of_is_SomeI [rotated])
  qed
  then show ?thesis
    using keys by (simp add: set_winner_distinct [OF assms] net_of_def)
qed

text \<open>The scenario of the specification: pot 40, winner A, net results A: +20, B: -20.\<close>

theorem set_winner_net_results_witness:
  "distinct (map name (players scenario_game))
   \<and> ''A'' \<in> set (map name (players scenario_game))
   \<and> pot scenario_game = 40
   \<and> fst (set_winner scenario_game ''A'') = None
   \<and> winner (snd (set_winner scenario_game ''A'')) = Some ''A''
   \<and> map fst (net_results (snd (set_winner scenario_game ''A''))) = [''A'', ''B'']
   \<and> dict_get (net_results (snd (set_winner scenario_game ''A''))) ''A'' = Some 20
   \<and> dict_get (net_results (snd (set_winner scenario_game ''A''))) ''B'' = Some (- 20)"
proof -
  have d: "distinct (map name (players scenario_game))" by code_simp
  have m: "''A'' \<in> set (map name (players scenario_game))" by code_simp
  have v: "pot scenario_game = 40" "map name (players scenario_game) = [''A'', ''B'']"
    "total_bet (players scenario_game ! 0) = 20" "total_bet (players scenario_game ! 1) = 20"
    "name (players scenario_game ! 0) = ''A''" "name (players scenario_game ! 1) = ''B''"
    by code_simp+
  have a: "players scenario_game ! 0 \<in> set (players scenario_game)"
    and b: "players scenario_game ! 1 \<in> set (players scenario_game)"
    by code_simp+
  note stored = set_winner_net_results [OF d m]
  from stored a have "dict_get (net_results (snd (set_winner scenario_game ''A'')))
      (name (players scenario_game ! 0))
    = Some (if name (players scenario_game ! 0) = ''A''
            then pot scenario_game - total_bet (players scenario_game ! 0)
            else - total_bet (players scenario_game ! 0))"
    by blast
  with v have first: "dict_get (net_results (snd (set_winner scenario_game ''A''))) ''A'' = Some 20"
    by simp
  from stored b have "dict_get (net_results (snd (set_winner scenario_game ''A'')))
      (name (players scenario_game ! 1))
    = Some (if name (players scenario_game ! 1) = ''A''
            then pot scenario_game - total_bet (players scenario_game ! 1)
            else - total_bet (players scenario_game ! 1))"
    by blast
  with v have second: "dict_get (net_results (snd (set_winner scenario_game ''A''))) ''B'' = Some (- 20)"
    by simp
  from stored v d m first second show ?thesis by simp
qed

text \<open>
  Claim C1 as stated covers every player list. With two players called A the call
  succeeds, both take the pot, and the one key A keeps the later player's result, 10,
  where the first player's own is \<open>pot - total_bet = 20\<close>.
\<close>

theorem set_winner_duplicate_names_counterexample:
  "''A'' \<in> set (map name (players twin_game))
   \<and> fst (set_winner twin_game ''A'') = None
   \<and> players twin_game ! 0 \<in> set (players twin_game)
   \<and> name (players twin_game ! 0) = ''A''
   \<and> pot twin_game - total_bet (players twin_game ! 0) = 20
   \<and> dict_get (net_results (snd (set_winner twin_game ''A''))) (name (players twin_game ! 0))
       = Some 10"
  by code_simp

text \<open>
  Claim C3, amended. Take a game created with new players whose configured names are
  pairwise distinct, through any list of operations. Whenever \<^verbatim>\<open>set_winner\<close>
  then succeeds, the values of the stored net results sum to zero.
\<close>

theorem net_results_sum_zero:
  assumes "distinct (map fst player_configs)"
    and "fst (set_winner
               (run_operations b (Game_init (new_players player_configs) d bb sb bu denoms) ops)
               winner_name) = None"
  shows "sum_list (dict_values (net_results (snd (set_winner
               (run_operations b (Game_init (new_players player_configs) d bb sb bu denoms) ops)
               winner_name)))) = 0"
proof -
  let ?g0 = "Game_init (new_players player_configs) d bb sb bu denoms"
  define g where "g = run_operations b ?g0 ops"
  have "pot_matches_bets ?g0"
    by (simp add: pot_matches_bets_def Game_init_def new_players_fresh)
  with run_operations_bets [of b ?g0 ops]
  have bets: "pot_matches_bets g" and "map name (players g) = map name (players ?g0)"
    by (simp_all add: g_def)
  then have names: "map name (players g) = map fst player_configs"
    by (simp add: Game_init_def new_players_fresh)
  with assms(1) have dist: "distinct (map name (players g))" by simp
  from assms(2) have mem: "winner_name \<in> set (map name (players g))"
    by (simp add: set_winner_def g_def split: if_splits)
  have "sum_list (dict_values (net_results (snd (set_winner g winner_name))))
          = sum_list (map (net_of winner_name (pot g)) (players g))"
    by (simp add: set_winner_distinct [OF dist mem] dict_values_def comp_def)
  also have "\<dots> = pot g - sum_list (map total_bet (players g))"
    by (rule winner_share [OF dist mem])
  also have "\<dots> = 0"
    using bets by (simp add: pot_matches_bets_def)
  finally show ?thesis by (simp add: g_def)
qed

theorem net_results_sum_zero_witness:
  "distinct (map fst [(''A'', 100 :: int), (''B'', 100)])
   \<and> fst (set_winner
            (run_operations ascii_builtins
               (Game_init (new_players [(''A'', 100), (''B'', 100)]) ''A'' ''B'' ''A'' 1
                  [1, 5, 25, 100])
               [RecordRound scenario_round, SetWinner ''B'', RecordRound [''fold'', ''check'']])
            ''A'') = None
   \<and> sum_list (dict_values (net_results (snd (set_winner
            (run_operations ascii_builtins
               (Game_init (new_players [(''A'', 100), (''B'', 100)]) ''A'' ''B'' ''A'' 1
                  [1, 5, 25, 100])
               [RecordRound scenario_round, SetWinner ''B'', RecordRound [''fold'', ''check'']])
            ''A'')))) = 0"
proof -
  have d: "distinct (map fst [(''A'', 100 :: int), (''B'', 100)])" by simp
  have ok: "fst (set_winner
            (run_operations ascii_builtins
               (Game_init (new_players [(''A'', 100), (''B'', 100)]) ''A'' ''B'' ''A'' 1
                  [1, 5, 25, 100])
               [RecordRound scenario_round, SetWinner ''B'', RecordRound [''fold'', ''check'']])
            ''A'') = None"
    by code_simp
  from net_results_sum_zero [OF d ok] d ok show ?thesis by blast
qed

text \<open>
  Claim C3 as stated covers every game built from a new one by recorded rounds. With two
  players called A who bet 10 and 20, the net results have the single value 10.
\<close>

theorem net_results_sum_duplicate_names_counterexample:
  "fst (set_winner twin_game ''A'') = None
   \<and> sum_list (dict_values (net_results (snd (set_winner twin_game ''A'')))) = 10"
  by code_simp

text \<open>
  Claim C6. \<^verbatim>\<open>set_winner\<close> with a name that no player has raises (the source's
  exception is a \<^verbatim>\<open>ValueError\<close> whose message is "Unknown winner name" and the
  name) and leaves the whole game, its winner, net results, pot, history and players, as
  it was.
\<close>

theorem set_winner_unknown:
  assumes "winner_name \<notin> set (map name (players g))"
  shows "set_winner g winner_name = (Some (ValueError winner_name), g)"
  using assms by (simp add: set_winner_def)

theorem set_winner_unknown_witness:
  "''Carol'' \<notin> set (map name (players scenario_game))
   \<and> set_winner scenario_game ''Carol'' = (Some (ValueError ''Carol''), scenario_game)
   \<and> net_results (snd (set_winner scenario_game ''Carol'')) = []"
proof -
  have h: "''Carol'' \<notin> set (map name (players scenario_game))" by code_simp
  have "net_results scenario_game = []" by code_simp
  with set_winner_unknown [OF h] h show ?thesis by simp
qed

subsection \<open>Bets beyond the starting stack\<close>

lemma read_bet_within_stack:
  assumes "read_units b (chip_denoms g) 0 inp = Some (total_units, inp1)"
    and "\<not> total_bet p + total_units * base_unit g > starting_stack p"
  shows "read_bet b g p inp = Some (total_units * base_unit g, p, inp1)"
  using assms by (subst read_bet.simps) (simp add: Let_def)

lemma read_bet_no_answer:
  assumes "read_units b (chip_denoms g) 0 inp = Some (total_units, [])"
    and "total_bet p + total_units * base_unit g > starting_stack p"
  shows "read_bet b g p inp = None"
  using assms by (subst read_bet.simps) (simp add: Let_def)

lemma read_bet_confirmed:
  assumes "read_units b (chip_denoms g) 0 inp = Some (total_units, answer # inp2)"
    and "total_bet p + total_units * base_unit g > starting_stack p"
    and "str_lower b (str_strip b answer) = ''y''"
  shows "read_bet b g p inp
           = Some (total_units * base_unit g, p\<lparr>went_negative_override := True\<rparr>, inp2)"
  using assms by (subst read_bet.simps) (simp add: Let_def)

lemma read_bet_declined:
  assumes "read_units b (chip_denoms g) 0 inp = Some (total_units, answer # inp2)"
    and "total_bet p + total_units * base_unit g > starting_stack p"
    and "str_lower b (str_strip b answer) \<noteq> ''y''"
  shows "read_bet b g p inp = read_bet b g p inp2"
  using assms by (subst read_bet.simps) (simp add: Let_def)

lemma player_turn_betting:
  assumes "str_lower b (str_strip b reply) \<in> set [''bet'', ''raise'', ''all-in'', ''call'']"
  shows "player_turn b r g i (reply # inp) =
           (case read_bet b g (players g ! i) inp of
              None \<Rightarrow> None
            | Some (amount_bonusly, p', inp2) \<Rightarrow>
                Some (commit g i p' r (str_lower b (str_strip b reply)) amount_bonusly, inp2))"
  using assms unfolding player_turn_def by (simp add: Let_def)

text \<open>
  Claim C8. A turn whose action is bet, raise, all-in or call reads the chips and converts
  them to an amount. The total bet so far is the sum of the amounts of the player's bet
  log. When it plus the amount exceeds the starting stack, the turn asks for an answer:
  with no answer left it raises and the round stops with the game as it was; with any
  answer but y the attempt leaves no trace, the turn goes on from the same game as if it
  had started after that answer; with y the action is committed and
  \<^verbatim>\<open>went_negative_override\<close> is set. When the projection does not exceed the
  starting stack the action is committed at once and the flag keeps its value. Committed
  means: the player's bet log and action log each take one entry, the stack falls by the
  amount, the pot rises by the amount, and the history takes one entry with the amount and
  the new pot; nothing else in the game changes.
\<close>

theorem soft_violation_needs_confirmation:
  assumes betting: "str_lower b (str_strip b reply) \<in> set [''bet'', ''raise'', ''all-in'', ''call'']"
    and chips: "read_units b (chip_denoms g) 0 inp = Some (total_units, after_chips)"
  shows
    "(sum_list (map snd (bets (players g ! i))) + total_units * base_unit g
        > starting_stack (players g ! i) \<longrightarrow>
        (after_chips = [] \<longrightarrow>
           player_turn b r g i (reply # inp) = None
           \<and> record_turns b r g [i] (reply # inp) = (Some EOFError, g, []))
      \<and> (after_chips = answer # after_answer \<longrightarrow>
           (if str_lower b (str_strip b answer) = ''y''
            then player_turn b r g i (reply # inp)
                   = Some (g\<lparr>players := (players g)
                               [i := (players g ! i)
                                  \<lparr>bets := bets (players g ! i) @ [(r, total_units * base_unit g)],
                                   actions := actions (players g ! i)
                                      @ [(r, str_lower b (str_strip b reply))],
                                   stack := stack (players g ! i) - total_units * base_unit g,
                                   went_negative_override := True\<rparr>],
                            pot := pot g + total_units * base_unit g,
                            history := history g @
                              [\<lparr>h_round = r, h_player = name (players g ! i),
                                h_action = str_lower b (str_strip b reply),
                                h_amount = total_units * base_unit g,
                                h_pot_after = pot g + total_units * base_unit g\<rparr>]\<rparr>,
                           after_answer)
            else player_turn b r g i (reply # inp) = player_turn b r g i (reply # after_answer))))
     \<and> (sum_list (map snd (bets (players g ! i))) + total_units * base_unit g
          \<le> starting_stack (players g ! i) \<longrightarrow>
          player_turn b r g i (reply # inp)
            = Some (g\<lparr>players := (players g)
                        [i := (players g ! i)
                           \<lparr>bets := bets (players g ! i) @ [(r, total_units * base_unit g)],
                            actions := actions (players g ! i)
                               @ [(r, str_lower b (str_strip b reply))],
                            stack := stack (players g ! i) - total_units * base_unit g\<rparr>],
                     pot := pot g + total_units * base_unit g,
                     history := history g @
                       [\<lparr>h_round = r, h_player = name (players g ! i),
                         h_action = str_lower b (str_strip b reply),
                         h_amount = total_units * base_unit g,
                         h_pot_after = pot g + total_units * base_unit g\<rparr>]\<rparr>,
                    after_chips))"
proof -
  let ?p = "players g ! i"
  let ?amount = "total_units * base_unit g"
  let ?action = "str_lower b (str_strip b reply)"
  have so_far: "sum_list (map snd (bets ?p)) = total_bet ?p"
    by (simp add: total_bet_def)
  have committed: "commit g i q r ?action ?amount
      = g\<lparr>players := (players g)
               [i := q\<lparr>bets := bets q @ [(r, ?amount)],
                       actions := actions q @ [(r, ?action)],
                       stack := stack q - ?amount\<rparr>],
           pot := pot g + ?amount,
           history := history g @
             [\<lparr>h_round = r, h_player = name q, h_action = ?action,
               h_amount = ?amount, h_pot_after = pot g + ?amount\<rparr>]\<rparr>"
    for q
    by (simp add: commit_def record_action_def Let_def)
  have none: "player_turn b r g i (reply # inp) = None
      \<and> record_turns b r g [i] (reply # inp) = (Some EOFError, g, [])"
    if "total_bet ?p + ?amount > starting_stack ?p" "after_chips = []"
    using that chips by (simp add: player_turn_betting [OF betting] read_bet_no_answer)
  have yes: "player_turn b r g i (reply # inp)
               = Some (commit g i (?p\<lparr>went_negative_override := True\<rparr>) r ?action ?amount,
                       after_answer)"
    if "total_bet ?p + ?amount > starting_stack ?p" "after_chips = answer # after_answer"
      "str_lower b (str_strip b answer) = ''y''"
    using that chips by (simp add: player_turn_betting [OF betting] read_bet_confirmed)
  have no: "player_turn b r g i (reply # inp) = player_turn b r g i (reply # after_answer)"
    if "total_bet ?p + ?amount > starting_stack ?p" "after_chips = answer # after_answer"
      "str_lower b (str_strip b answer) \<noteq> ''y''"
  proof -
    from that chips have "read_bet b g ?p inp = read_bet b g ?p after_answer"
      by (simp add: read_bet_declined)
    then show ?thesis
      by (simp add: player_turn_betting [OF betting])
  qed
  have within: "player_turn b r g i (reply # inp)
                  = Some (commit g i ?p r ?action ?amount, after_chips)"
    if "total_bet ?p + ?amount \<le> starting_stack ?p"
    using that chips by (simp add: player_turn_betting [OF betting] read_bet_within_stack)
  have flagged: "commit g i (?p\<lparr>went_negative_override := True\<rparr>) r ?action ?amount
      = g\<lparr>players := (players g)
               [i := ?p\<lparr>bets := bets ?p @ [(r, ?amount)],
                        actions := actions ?p @ [(r, ?action)],
                        stack := stack ?p - ?amount,
                        went_negative_override := True\<rparr>],
           pot := pot g + ?amount,
           history := history g @
             [\<lparr>h_round = r, h_player = name ?p, h_action = ?action,
               h_amount = ?amount, h_pot_after = pot g + ?amount\<rparr>]\<rparr>"
  proof -
    have swap: "q\<lparr>went_negative_override := True, bets := x, actions := y, stack := z\<rparr>
        = q\<lparr>bets := x, actions := y, stack := z, went_negative_override := True\<rparr>"
      for q :: player and x y z
      by (cases q) simp
    have "bets (?p\<lparr>went_negative_override := True\<rparr>) = bets ?p"
      "actions (?p\<lparr>went_negative_override := True\<rparr>) = actions ?p"
      "stack (?p\<lparr>went_negative_override := True\<rparr>) = stack ?p"
      "name (?p\<lparr>went_negative_override := True\<rparr>) = name ?p"
      by simp_all
    then show ?thesis by (simp only: committed swap)
  qed
  from none yes no within show ?thesis
    unfolding so_far flagged [symmetric] committed [of ?p, symmetric]
    by (simp only: split: if_split) blast
qed

text \<open>
  Player A of the example game after round 1: 20 bet of a stack of 100, pot 40. One
  100-chip exceeds the stack. With no answer the turn raises; with the answer n followed
  by two 25-chips the turn is that of the two 25-chips alone; with y the 100 are
  committed, the stack goes to -20 and the flag is set; two 25-chips are committed at once
  with the flag unset.
\<close>

theorem soft_violation_needs_confirmation_witness:
  "sum_list (map snd (bets (players scenario_game ! 0))) = 20
   \<and> starting_stack (players scenario_game ! 0) = 100
   \<and> player_turn ascii_builtins 2 scenario_game 0 [''bet'', ''0'', ''0'', ''0'', ''1''] = None
   \<and> record_turns ascii_builtins 2 scenario_game [0] [''bet'', ''0'', ''0'', ''0'', ''1'']
       = (Some EOFError, scenario_game, [])
   \<and> player_turn ascii_builtins 2 scenario_game 0
         [''bet'', ''0'', ''0'', ''0'', ''1'', ''n'', ''0'', ''0'', ''2'', ''0'']
       = player_turn ascii_builtins 2 scenario_game 0 [''bet'', ''0'', ''0'', ''2'', ''0'']
   \<and> turn_outcome (player_turn ascii_builtins 2 scenario_game 0
         [''bet'', ''0'', ''0'', ''0'', ''1'', ''y''])
       = Some (140, [(1, 20), (2, 100)], - 20, True, [20, 20, 100], [])
   \<and> turn_outcome (player_turn ascii_builtins 2 scenario_game 0
         [''bet'', ''0'', ''0'', ''2'', ''0''])
       = Some (90, [(1, 20), (2, 50)], 30, False, [20, 20, 50], [])"
proof -
  let ?b = ascii_builtins and ?g = scenario_game
  have betting: "str_lower ?b (str_strip ?b ''bet'') \<in> set [''bet'', ''raise'', ''all-in'', ''call'']"
    by code_simp
  have a: "players ?g ! 0
      = \<lparr>name = ''A'', starting_stack = 100, stack = 80, bets = [(1, 20)],
         actions = [(1, ''bet'')], went_negative_override = False\<rparr>"
    by code_simp
  have facts: "pot ?g = 40" "map h_amount (history ?g) = [20, 20]" "base_unit ?g = 1"
    "0 < length (players ?g)"
    by code_simp+
  have answers: "str_lower ?b (str_strip ?b ''n'') \<noteq> ''y''" "str_lower ?b (str_strip ?b ''y'') = ''y''"
    by code_simp+
  have eof: "read_units ?b (chip_denoms ?g) 0 [''0'', ''0'', ''0'', ''1''] = Some (100, [])"
    by code_simp
  have declined: "read_units ?b (chip_denoms ?g) 0
        [''0'', ''0'', ''0'', ''1'', ''n'', ''0'', ''0'', ''2'', ''0'']
      = Some (100, ''n'' # [''0'', ''0'', ''2'', ''0''])"
    by code_simp
  have confirmed: "read_units ?b (chip_denoms ?g) 0 [''0'', ''0'', ''0'', ''1'', ''y'']
      = Some (100, ''y'' # [])"
    by code_simp
  have within: "read_units ?b (chip_denoms ?g) 0 [''0'', ''0'', ''2'', ''0''] = Some (50, [])"
    by code_simp
  from a have so_far: "sum_list (map snd (bets (players ?g ! 0))) = 20"
    "starting_stack (players ?g ! 0) = 100"
    by simp_all
  from soft_violation_needs_confirmation [where i = 0 and r = 2, OF betting eof] a facts
  have eof_raises: "player_turn ?b 2 ?g 0 [''bet'', ''0'', ''0'', ''0'', ''1''] = None
      \<and> record_turns ?b 2 ?g [0] [''bet'', ''0'', ''0'', ''0'', ''1''] = (Some EOFError, ?g, [])"
    by simp
  from soft_violation_needs_confirmation
      [where i = 0 and r = 2 and answer = "''n''" and after_answer = "[''0'', ''0'', ''2'', ''0'']",
       OF betting declined] a facts answers
  have declined_restarts:
    "player_turn ?b 2 ?g 0 [''bet'', ''0'', ''0'', ''0'', ''1'', ''n'', ''0'', ''0'', ''2'', ''0'']
      = player_turn ?b 2 ?g 0 [''bet'', ''0'', ''0'', ''2'', ''0'']"
    by simp
  from soft_violation_needs_confirmation
      [where i = 0 and r = 2 and answer = "''y''" and after_answer = "[]", OF betting confirmed]
    a facts answers
  have confirmed_commits:
    "turn_outcome (player_turn ?b 2 ?g 0 [''bet'', ''0'', ''0'', ''0'', ''1'', ''y''])
      = Some (140, [(1, 20), (2, 100)], - 20, True, [20, 20, 100], [])"
    by (simp add: turn_outcome_def)
  from soft_violation_needs_confirmation [where i = 0 and r = 2, OF betting within] a facts
  have within_commits:
    "turn_outcome (player_turn ?b 2 ?g 0 [''bet'', ''0'', ''0'', ''2'', ''0''])
      = Some (90, [(1, 20), (2, 50)], 30, False, [20, 20, 50], [])"
    by (simp add: turn_outcome_def)
  from so_far eof_raises declined_restarts confirmed_commits within_commits
  show ?thesis by blast
qed

subsection \<open>The settlement sweep\<close>

lemma settle_step_progress:
  assumes "running s"
  shows "length (debtors (settle_step s)) = length (debtors s)
    \<and> length (creditors (settle_step s)) = length (creditors s)
    \<and> cursor_i s \<le> cursor_i (settle_step s) \<and> cursor_j s \<le> cursor_j (settle_step s)
    \<and> (cursor_i (settle_step s) = cursor_i s + 1 \<or> cursor_j (settle_step s) = cursor_j s + 1)
    \<and> length (settlements (settle_step s)) = length (settlements s) + 1"
proof -
  obtain dn da where d: "debtors s ! cursor_i s = (dn, da)" by (cases "debtors s ! cursor_i s")
  obtain cn ca where c: "creditors s ! cursor_j s = (cn, ca)" by (cases "creditors s ! cursor_j s")
  have "da - min da ca = 0 \<or> ca - min da ca = 0" by (simp add: min_def)
  then show ?thesis
    by (auto simp: settle_step_def d c Let_def)
qed

lemma drop_at_cursor:
  assumes "drop k xs = x # rest"
  shows "k < length xs \<and> xs ! k = x \<and> drop (Suc k) xs = rest
         \<and> drop k (xs[k := y]) = y # rest"
proof -
  from assms have k: "k < length xs"
    by (cases "k < length xs") simp_all
  from Cons_nth_drop_Suc [OF k] assms have at: "xs ! k = x" "drop (Suc k) xs = rest"
    by simp_all
  from k have "k < length (xs[k := y])" by simp
  from Cons_nth_drop_Suc [OF this] k
  have "drop k (xs[k := y]) = y # drop (Suc k) xs"
    by simp
  with k at show ?thesis by simp
qed

lemma settle_step_rest:
  assumes "drop (cursor_i s) (debtors s) = (dn, da) # ds"
    and "drop (cursor_j s) (creditors s) = (cn, ca) # cs"
  shows "settlements (settle_step s)
           = settlements s @ [\<lparr>s_from = dn, s_to = cn, s_amount = min da ca\<rparr>]
    \<and> drop (cursor_i (settle_step s)) (debtors (settle_step s))
           = (if da - min da ca = 0 then ds else (dn, da - min da ca) # ds)
    \<and> drop (cursor_j (settle_step s)) (creditors (settle_step s))
           = (if ca - min da ca = 0 then cs else (cn, ca - min da ca) # cs)"
proof -
  note d = drop_at_cursor [OF assms(1)] and c = drop_at_cursor [OF assms(2)]
  from d have d_at: "debtors s ! cursor_i s = (dn, da)" by simp
  from c have c_at: "creditors s ! cursor_j s = (cn, ca)" by simp
  show ?thesis
  proof (cases "da - min da ca = 0")
    case d0: True
    show ?thesis
    proof (cases "ca - min da ca = 0")
      case True
      with d0 d c show ?thesis
        by (simp add: settle_step_def d_at c_at Let_def)
    next
      case False
      with d0 d c show ?thesis
        by (simp add: settle_step_def d_at c_at Let_def)
    qed
  next
    case d1: False
    show ?thesis
    proof (cases "ca - min da ca = 0")
      case True
      with d1 d c show ?thesis
        by (simp add: settle_step_def d_at c_at Let_def)
    next
      case False
      with d1 d c show ?thesis
        by (simp add: settle_step_def d_at c_at Let_def)
    qed
  qed
qed

lemma settle_loop_sweep:
  "settle_loop s
     = settlements s @ sweep (drop (cursor_i s) (debtors s)) (drop (cursor_j s) (creditors s))"
proof (induction s rule: settle_loop.induct)
  case (1 s)
  show ?case
  proof (cases "running s")
    case False
    then have "drop (cursor_i s) (debtors s) = [] \<or> drop (cursor_j s) (creditors s) = []"
      by (auto simp: running_def)
    then have "sweep (drop (cursor_i s) (debtors s)) (drop (cursor_j s) (creditors s)) = []"
      by (cases "drop (cursor_i s) (debtors s)") auto
    with False show ?thesis by (subst settle_loop.simps) simp
  next
    case True
    then have i: "cursor_i s < length (debtors s)" and j: "cursor_j s < length (creditors s)"
      by (simp_all add: running_def)
    obtain dn da where d: "debtors s ! cursor_i s = (dn, da)"
      by (cases "debtors s ! cursor_i s")
    obtain cn ca where c: "creditors s ! cursor_j s = (cn, ca)"
      by (cases "creditors s ! cursor_j s")
    from Cons_nth_drop_Suc [OF i] d
    have dd: "drop (cursor_i s) (debtors s) = (dn, da) # drop (Suc (cursor_i s)) (debtors s)"
      by simp
    from Cons_nth_drop_Suc [OF j] c
    have cc: "drop (cursor_j s) (creditors s) = (cn, ca) # drop (Suc (cursor_j s)) (creditors s)"
      by simp
    have "settle_loop s = settle_loop (settle_step s)"
      using True by (subst settle_loop.simps) simp
    also have "\<dots> = settlements (settle_step s)
        @ sweep (drop (cursor_i (settle_step s)) (debtors (settle_step s)))
                (drop (cursor_j (settle_step s)) (creditors (settle_step s)))"
      by (rule "1.IH" [OF True])
    also have "\<dots> = settlements s
        @ sweep ((dn, da) # drop (Suc (cursor_i s)) (debtors s))
                ((cn, ca) # drop (Suc (cursor_j s)) (creditors s))"
      using settle_step_rest [OF dd cc] by simp
    finally show ?thesis
      by (simp only: dd [symmetric] cc [symmetric])
  qed
qed

lemma calculate_settlements_sweep:
  "calculate_settlements nt
     = sweep (debtors (initial_state nt)) (creditors (initial_state nt))"
  unfolding calculate_settlements_def settle_loop_sweep
  by (simp add: initial_state_def)

lemma sweep_length: "length (sweep ds cs) \<le> length ds + length cs"
  by (induction ds cs rule: sweep.induct) (auto simp: min_def)

lemma sweep_positive_names:
  assumes "all_positive ds" "all_positive cs" "t \<in> set (sweep ds cs)"
  shows "0 < s_amount t \<and> s_from t \<in> fst ` set ds \<and> s_to t \<in> fst ` set cs"
  using assms
proof (induction ds cs rule: sweep.induct)
  case (3 dn da ds cn ca cs)
  let ?a = "min da ca"
  let ?ds = "if da - ?a = 0 then ds else (dn, da - ?a) # ds"
  let ?cs = "if ca - ?a = 0 then cs else (cn, ca - ?a) # cs"
  from "3.prems" have pos: "0 < da" "0 < ca" "all_positive ds" "all_positive cs"
    by (simp_all add: all_positive_def)
  then have rest: "all_positive ?ds" "all_positive ?cs"
    by (auto simp: all_positive_def min_def)
  have names: "fst ` set ?ds \<subseteq> fst ` set ((dn, da) # ds)" "fst ` set ?cs \<subseteq> fst ` set ((cn, ca) # cs)"
    by auto
  from "3.prems"(3) consider "t = \<lparr>s_from = dn, s_to = cn, s_amount = ?a\<rparr>" | "t \<in> set (sweep ?ds ?cs)"
    by auto
  then show ?case
  proof cases
    case 1
    with pos show ?thesis by simp
  next
    case 2
    from "3.IH" [OF rest 2] names show ?thesis by blast
  qed
qed simp_all

lemma sweep_total:
  assumes "all_positive ds" "all_positive cs" "sum_list (map snd ds) = sum_list (map snd cs)"
  shows "sum_list (map s_amount (sweep ds cs)) = sum_list (map snd ds)"
  using assms
proof (induction ds cs rule: sweep.induct)
  case (1 cs)
  then show ?case by simp
next
  case (2 d ds)
  then show ?case by simp
next
  case (3 dn da ds cn ca cs)
  let ?a = "min da ca"
  let ?ds = "if da - ?a = 0 then ds else (dn, da - ?a) # ds"
  let ?cs = "if ca - ?a = 0 then cs else (cn, ca - ?a) # cs"
  from "3.prems" have pos: "0 < da" "0 < ca" "all_positive ds" "all_positive cs"
    by (simp_all add: all_positive_def)
  then have rest: "all_positive ?ds" "all_positive ?cs"
    by (auto simp: all_positive_def min_def)
  have sums: "sum_list (map snd ?ds) = sum_list (map snd ((dn, da) # ds)) - ?a"
    "sum_list (map snd ?cs) = sum_list (map snd ((cn, ca) # cs)) - ?a"
    by auto
  with "3.prems"(3) have "sum_list (map snd ?ds) = sum_list (map snd ?cs)" by simp
  from "3.IH" [OF rest this] sums(1) show ?case by simp
qed

lemma all_positive_sum_nonneg: "all_positive xs \<Longrightarrow> 0 \<le> sum_list (map snd xs)"
  by (induction xs) (auto simp: all_positive_def)

lemma all_positive_sum_zero:
  assumes "all_positive xs" "sum_list (map snd xs) = 0"
  shows "xs = []"
proof (cases xs)
  case Nil
  then show ?thesis .
next
  case (Cons x ys)
  with assms(1) have "0 < snd x" "all_positive ys"
    by (auto simp: all_positive_def)
  with all_positive_sum_nonneg [of ys] assms(2) Cons show ?thesis by simp
qed

lemma paid_by_Cons:
  "paid_by (t # ts) nm = (if s_from t = nm then s_amount t else 0) + paid_by ts nm"
  by (simp add: paid_by_def)

lemma received_by_Cons:
  "received_by (t # ts) nm = (if s_to t = nm then s_amount t else 0) + received_by ts nm"
  by (simp add: received_by_def)

lemma sweep_paid:
  assumes "all_positive ds" "all_positive cs" "sum_list (map snd ds) = sum_list (map snd cs)"
  shows "paid_by (sweep ds cs) nm = owed ds nm \<and> received_by (sweep ds cs) nm = owed cs nm"
  using assms
proof (induction ds cs rule: sweep.induct)
  case (1 cs)
  from "1.prems" have "cs = []"
    by (simp add: all_positive_sum_zero)
  then show ?case by (simp add: paid_by_def received_by_def owed_def)
next
  case (2 d ds)
  from "2.prems" all_positive_sum_zero [of "d # ds"] have "d # ds = []"
    by simp
  then show ?case by simp
next
  case (3 dn da ds cn ca cs)
  let ?a = "min da ca"
  let ?ds = "if da - ?a = 0 then ds else (dn, da - ?a) # ds"
  let ?cs = "if ca - ?a = 0 then cs else (cn, ca - ?a) # cs"
  from "3.prems" have pos: "0 < da" "0 < ca" "all_positive ds" "all_positive cs"
    by (simp_all add: all_positive_def)
  then have rest: "all_positive ?ds" "all_positive ?cs"
    by (auto simp: all_positive_def min_def)
  have sums: "sum_list (map snd ?ds) = sum_list (map snd ((dn, da) # ds)) - ?a"
    "sum_list (map snd ?cs) = sum_list (map snd ((cn, ca) # cs)) - ?a"
    by auto
  with "3.prems"(3) have "sum_list (map snd ?ds) = sum_list (map snd ?cs)" by simp
  from "3.IH" [OF rest this]
  have ih: "paid_by (sweep ?ds ?cs) nm = owed ?ds nm" "received_by (sweep ?ds ?cs) nm = owed ?cs nm"
    by simp_all
  have "owed ?ds nm = owed ((dn, da) # ds) nm - (if dn = nm then ?a else 0)"
    "owed ?cs nm = owed ((cn, ca) # cs) nm - (if cn = nm then ?a else 0)"
    by (auto simp: owed_def)
  moreover have "paid_by (sweep ((dn, da) # ds) ((cn, ca) # cs)) nm
        = (if dn = nm then ?a else 0) + paid_by (sweep ?ds ?cs) nm"
    "received_by (sweep ((dn, da) # ds) ((cn, ca) # cs)) nm
        = (if cn = nm then ?a else 0) + received_by (sweep ?ds ?cs) nm"
    by (simp_all add: paid_by_Cons received_by_Cons)
  ultimately show ?case
    using ih by (simp only:) simp
qed
lemma initial_state_positive:
  "all_positive (debtors (initial_state nt)) \<and> all_positive (creditors (initial_state nt))"
  by (induction nt) (auto simp: initial_state_def all_positive_def)

lemma initial_state_sums:
  "sum_list (map snd nt)
     = sum_list (map snd (creditors (initial_state nt)))
       - sum_list (map snd (debtors (initial_state nt)))"
  by (induction nt) (auto simp: initial_state_def)

lemma filter_key_distinct:
  "distinct (map fst xs) \<Longrightarrow> (k, v) \<in> set xs \<Longrightarrow> filter (\<lambda>(k', v'). k' = k) xs = [(k, v)]"
proof (induction xs)
  case Nil
  then show ?case by simp
next
  case (Cons x xs)
  obtain k' v' where x: "x = (k', v')" by (cases x)
  show ?case
  proof (cases "k' = k")
    case True
    with Cons.prems x have "k \<notin> fst ` set xs" by simp
    then have none: "filter (\<lambda>(k', v'). k' = k) xs = []"
      by (auto simp: filter_empty_conv image_iff)
    from \<open>k \<notin> fst ` set xs\<close> have "(k, v) \<notin> set xs"
      by (metis fst_conv imageI)
    with Cons.prems True x have "v' = v" by simp
    with True x none show ?thesis by simp
  next
    case False
    with Cons x show ?thesis by simp
  qed
qed

lemma initial_state_owed:
  assumes "distinct (map fst nt)" "(nm, net) \<in> set nt"
  shows "owed (debtors (initial_state nt)) nm = (if net < 0 then - net else 0)
       \<and> owed (creditors (initial_state nt)) nm = (if 0 < net then net else 0)"
proof -
  have key: "filter (\<lambda>(nm', amt). nm' = nm) (map (\<lambda>(nm, net). (nm, f net)) (filter P nt))
      = map (\<lambda>(nm, net). (nm, f net)) (filter P (filter (\<lambda>(nm', amt). nm' = nm) nt))"
    for f :: "int \<Rightarrow> int" and P
    by (induction nt) auto
  from filter_key_distinct [OF assms]
  have one: "filter (\<lambda>(nm', amt). nm' = nm) nt = [(nm, net)]" .
  have "owed (debtors (initial_state nt)) nm = (if net < 0 then - net else 0)"
    using key [of uminus "\<lambda>(nm, net). net < 0"]
    by (simp add: owed_def initial_state_def one)
  moreover have "owed (creditors (initial_state nt)) nm = (if 0 < net then net else 0)"
    using key [of "\<lambda>x. x" "\<lambda>(nm, net). 0 < net"]
    by (simp add: owed_def initial_state_def one)
  ultimately show ?thesis by simp
qed

lemma foldl_apply_payment:
  "foldl apply_payment balances ts
     = map (\<lambda>(nm, bal). (nm, bal + paid_by ts nm - received_by ts nm)) balances"
proof (induction ts arbitrary: balances)
  case Nil
  show ?case by (simp add: paid_by_def received_by_def)
next
  case (Cons t ts)
  have "foldl apply_payment balances (t # ts) = foldl apply_payment (apply_payment balances t) ts"
    by simp
  also have "\<dots> = map (\<lambda>(nm, bal). (nm, bal + paid_by ts nm - received_by ts nm))
                       (apply_payment balances t)"
    by (rule Cons.IH)
  also have "\<dots> = map (\<lambda>(nm, bal). (nm, bal + paid_by (t # ts) nm - received_by (t # ts) nm))
                       balances"
    by (auto simp: apply_payment_def paid_by_Cons received_by_Cons)
  finally show ?case .
qed

text \<open>
  Claim C2, amended. For a mapping (every name once) whose values sum to zero, start the
  running balances at the net totals and apply the transfers of
  \<^verbatim>\<open>_calculate_settlements\<close> in order, adding each amount to the debtor's balance
  and subtracting it from the creditor's: every balance ends at exactly zero. The amounts
  of the transfers sum to the total debtor magnitude, the sum of \<open>- net\<close> over the
  entries with negative net.
\<close>

theorem settlements_clear_balances:
  assumes "distinct (map fst net_totals)" and "sum_list (map snd net_totals) = 0"
  shows "foldl apply_payment net_totals (calculate_settlements net_totals)
           = map (\<lambda>(nm, net). (nm, 0)) net_totals
    \<and> sum_list (map s_amount (calculate_settlements net_totals))
           = sum_list (map (\<lambda>(nm, net). - net) (filter (\<lambda>(nm, net). net < 0) net_totals))"
proof -
  let ?ds = "debtors (initial_state net_totals)" and ?cs = "creditors (initial_state net_totals)"
  let ?ts = "calculate_settlements net_totals"
  have ts: "?ts = sweep ?ds ?cs" by (rule calculate_settlements_sweep)
  have pos: "all_positive ?ds" "all_positive ?cs"
    using initial_state_positive [of net_totals] by simp_all
  have sums: "sum_list (map snd ?ds) = sum_list (map snd ?cs)"
    using initial_state_sums [of net_totals] assms(2) by simp
  have "bal + paid_by ?ts nm - received_by ?ts nm = 0" if "(nm, bal) \<in> set net_totals" for nm bal
    using sweep_paid [OF pos sums, of nm] initial_state_owed [OF assms(1) that]
    by (simp add: ts)
  then have "foldl apply_payment net_totals ?ts = map (\<lambda>(nm, net). (nm, 0)) net_totals"
    unfolding foldl_apply_payment by (intro map_cong) auto
  moreover have "sum_list (map s_amount ?ts) = sum_list (map snd ?ds)"
    unfolding ts by (rule sweep_total [OF pos sums])
  moreover have "map snd ?ds
      = map (\<lambda>(nm, net). - net) (filter (\<lambda>(nm, net). net < 0) net_totals)"
    by (simp add: initial_state_def split_def comp_def)
  ultimately show ?thesis by simp
qed

theorem settlements_clear_balances_witness:
  "distinct (map fst session_totals) \<and> sum_list (map snd session_totals) = 0
   \<and> calculate_settlements session_totals
       = [\<lparr>s_from = ''B'', s_to = ''A'', s_amount = 10\<rparr>,
          \<lparr>s_from = ''B'', s_to = ''D'', s_amount = 15\<rparr>,
          \<lparr>s_from = ''E'', s_to = ''D'', s_amount = 15\<rparr>]
   \<and> foldl apply_payment session_totals (calculate_settlements session_totals)
       = [(''A'', 0), (''B'', 0), (''C'', 0), (''D'', 0), (''E'', 0)]
   \<and> sum_list (map s_amount (calculate_settlements session_totals)) = 40"
proof -
  have d: "distinct (map fst session_totals)" and z: "sum_list (map snd session_totals) = 0"
    by code_simp+
  have v: "calculate_settlements session_totals
       = [\<lparr>s_from = ''B'', s_to = ''A'', s_amount = 10\<rparr>,
          \<lparr>s_from = ''B'', s_to = ''D'', s_amount = 15\<rparr>,
          \<lparr>s_from = ''E'', s_to = ''D'', s_amount = 15\<rparr>]"
    by code_simp
  have r: "map (\<lambda>(nm, net). (nm, 0 :: int)) session_totals
       = [(''A'', 0), (''B'', 0), (''C'', 0), (''D'', 0), (''E'', 0)]"
    "sum_list (map (\<lambda>(nm, net). - net) (filter (\<lambda>(nm, net). net < 0) session_totals)) = 40"
    by code_simp+
  from settlements_clear_balances [OF d z] r d z v show ?thesis
    by simp
qed

text \<open>
  Claim C2 as stated subtracts the amount from the debtor's balance and adds it to the
  creditor's. For A: +10, B: -10 the one transfer is 10 from B to A, and the balances so
  moved end at A: 20 and B: -20.
\<close>

theorem settlements_as_stated_counterexample:
  "distinct (map fst [(''A'', 10 :: int), (''B'', - 10)])
   \<and> sum_list (map snd [(''A'', 10 :: int), (''B'', - 10)]) = 0
   \<and> calculate_settlements [(''A'', 10), (''B'', - 10)]
       = [\<lparr>s_from = ''B'', s_to = ''A'', s_amount = 10\<rparr>]
   \<and> foldl apply_as_stated [(''A'', 10), (''B'', - 10)]
         (calculate_settlements [(''A'', 10), (''B'', - 10)])
       = [(''A'', 20), (''B'', - 20)]"
  by code_simp

text \<open>
  Claim C9. For every mapping (every name once), whatever its sum, each transfer has a
  strictly positive amount, its debtor has a negative net total and its creditor a
  positive one; so no transfer names a player whose net total is zero.
\<close>

theorem settlements_positive:
  assumes "distinct (map fst net_totals)" and "t \<in> set (calculate_settlements net_totals)"
  shows "0 < s_amount t
    \<and> (\<exists>net. dict_get net_totals (s_from t) = Some net \<and> net < 0)
    \<and> (\<exists>net. dict_get net_totals (s_to t) = Some net \<and> 0 < net)
    \<and> dict_get net_totals (s_from t) \<noteq> Some 0
    \<and> dict_get net_totals (s_to t) \<noteq> Some 0"
proof -
  let ?ds = "debtors (initial_state net_totals)" and ?cs = "creditors (initial_state net_totals)"
  from assms(2) have t: "t \<in> set (sweep ?ds ?cs)"
    by (simp add: calculate_settlements_sweep)
  have pos: "all_positive ?ds" "all_positive ?cs"
    using initial_state_positive [of net_totals] by simp_all
  from sweep_positive_names [OF pos t]
  have amount: "0 < s_amount t" and d: "s_from t \<in> fst ` set ?ds" and c: "s_to t \<in> fst ` set ?cs"
    by simp_all
  from d obtain net where "(s_from t, net) \<in> set net_totals" "net < 0"
    by (auto simp: initial_state_def)
  with assms(1) have "dict_get net_totals (s_from t) = Some net \<and> net < 0"
    by (simp add: dict_get_def)
  moreover from c obtain net' where "(s_to t, net') \<in> set net_totals" "0 < net'"
    by (auto simp: initial_state_def)
  with assms(1) have "dict_get net_totals (s_to t) = Some net' \<and> 0 < net'"
    by (simp add: dict_get_def)
  ultimately show ?thesis
    using amount by auto
qed

theorem settlements_positive_witness:
  "distinct (map fst session_totals)
   \<and> \<lparr>s_from = ''B'', s_to = ''D'', s_amount = 15\<rparr> \<in> set (calculate_settlements session_totals)
   \<and> dict_get session_totals ''C'' = Some 0
   \<and> dict_get session_totals ''B'' \<noteq> Some 0
   \<and> dict_get session_totals ''D'' \<noteq> Some 0"
proof -
  have d: "distinct (map fst session_totals)"
    and t: "\<lparr>s_from = ''B'', s_to = ''D'', s_amount = 15\<rparr> \<in> set (calculate_settlements session_totals)"
    and c: "dict_get session_totals ''C'' = Some 0"
    by code_simp+
  from settlements_positive [OF d t] d t c show ?thesis by simp
qed

lemma settle_loop_halts:
  "\<exists>n. n \<le> (length (debtors s) - cursor_i s) + (length (creditors s) - cursor_j s)
       \<and> \<not> running ((settle_step ^^ n) s)
       \<and> settlements ((settle_step ^^ n) s) = settle_loop s"
proof (induction s rule: settle_loop.induct)
  case (1 s)
  let ?m = "\<lambda>s. (length (debtors s) - cursor_i s) + (length (creditors s) - cursor_j s)"
  show ?case
  proof (cases "running s")
    case False
    then have "\<not> running ((settle_step ^^ 0) s) \<and> settlements ((settle_step ^^ 0) s) = settle_loop s"
      by (subst settle_loop.simps) simp
    then show ?thesis by blast
  next
    case True
    from "1.IH" [OF True] obtain n where n: "n \<le> ?m (settle_step s)"
      "\<not> running ((settle_step ^^ n) (settle_step s))"
      "settlements ((settle_step ^^ n) (settle_step s)) = settle_loop (settle_step s)"
      by blast
    from settle_step_progress [OF True] True have "?m (settle_step s) < ?m s"
      unfolding running_def by (simp; linarith)
    with n(1) have "Suc n \<le> ?m s" by simp
    moreover have "(settle_step ^^ Suc n) s = (settle_step ^^ n) (settle_step s)"
      by (simp add: funpow_swap1)
    moreover have "settle_loop s = settle_loop (settle_step s)"
      using True by (subst settle_loop.simps) simp
    ultimately have "Suc n \<le> ?m s \<and> \<not> running ((settle_step ^^ Suc n) s)
        \<and> settlements ((settle_step ^^ Suc n) s) = settle_loop s"
      using n(2,3) by (simp only:) simp
    then show ?thesis by blast
  qed
qed

text \<open>
  Claim C10. For every mapping, whatever its sum, the loop halts. A pass of the body
  appends exactly one transfer, whose amount is the smaller of the two magnitudes at the
  cursors, moves at least one cursor forward by one, moves none back and changes the
  length of neither list. From the initial state the condition of the loop fails after at
  most \<open>len(debtors) + len(creditors)\<close> passes, with the result of
  \<^verbatim>\<open>_calculate_settlements\<close> as the transfers; so the result has at most that many
  transfers.
\<close>

theorem calculate_settlements_halts:
  "(running s \<longrightarrow>
      settlements (settle_step s)
        = settlements s @
          [\<lparr>s_from = fst (debtors s ! cursor_i s), s_to = fst (creditors s ! cursor_j s),
            s_amount = min (snd (debtors s ! cursor_i s)) (snd (creditors s ! cursor_j s))\<rparr>]
      \<and> (cursor_i (settle_step s) = cursor_i s + 1 \<or> cursor_j (settle_step s) = cursor_j s + 1)
      \<and> cursor_i s \<le> cursor_i (settle_step s) \<and> cursor_j s \<le> cursor_j (settle_step s)
      \<and> length (debtors (settle_step s)) = length (debtors s)
      \<and> length (creditors (settle_step s)) = length (creditors s))
   \<and> (\<exists>n. n \<le> length (debtors (initial_state net_totals))
               + length (creditors (initial_state net_totals))
          \<and> \<not> running ((settle_step ^^ n) (initial_state net_totals))
          \<and> settlements ((settle_step ^^ n) (initial_state net_totals))
               = calculate_settlements net_totals)
   \<and> length (calculate_settlements net_totals)
        \<le> length (debtors (initial_state net_totals))
          + length (creditors (initial_state net_totals))"
proof -
  have step: "settlements (settle_step s)
        = settlements s @
          [\<lparr>s_from = fst (debtors s ! cursor_i s), s_to = fst (creditors s ! cursor_j s),
            s_amount = min (snd (debtors s ! cursor_i s)) (snd (creditors s ! cursor_j s))\<rparr>]"
    by (simp add: settle_step_def Let_def split_def)
  from settle_loop_halts [of "initial_state net_totals"]
  have halt: "\<exists>n. n \<le> length (debtors (initial_state net_totals))
               + length (creditors (initial_state net_totals))
          \<and> \<not> running ((settle_step ^^ n) (initial_state net_totals))
          \<and> settlements ((settle_step ^^ n) (initial_state net_totals))
               = calculate_settlements net_totals"
    by (simp add: calculate_settlements_def) (simp add: initial_state_def)
  have "length (calculate_settlements net_totals)
        \<le> length (debtors (initial_state net_totals))
          + length (creditors (initial_state net_totals))"
    unfolding calculate_settlements_sweep by (rule sweep_length)
  with step settle_step_progress [of s] halt show ?thesis
    by blast
qed

theorem calculate_settlements_halts_witness:
  "running (initial_state session_totals)
   \<and> settlements (settle_step (initial_state session_totals))
       = [\<lparr>s_from = ''B'', s_to = ''A'', s_amount = 10\<rparr>]
   \<and> cursor_i (settle_step (initial_state session_totals)) = 0
   \<and> cursor_j (settle_step (initial_state session_totals)) = 1
   \<and> length (calculate_settlements session_totals) \<le> 4"
proof -
  have r: "running (initial_state session_totals)"
    and v: "debtors (initial_state session_totals) ! 0 = (''B'', 25)"
      "creditors (initial_state session_totals) ! 0 = (''A'', 10)"
      "cursor_i (initial_state session_totals) = 0" "cursor_j (initial_state session_totals) = 0"
      "settlements (initial_state session_totals) = []"
      "length (debtors (initial_state session_totals)) = 2"
      "length (creditors (initial_state session_totals)) = 2"
      "cursor_i (settle_step (initial_state session_totals)) = 0"
    by code_simp+
  from calculate_settlements_halts [of "initial_state session_totals" session_totals] r v
  show ?thesis by simp
qed

subsection \<open>The base unit\<close>

lemma bit_length_bound: "m < 2 ^ k \<Longrightarrow> bit_length m \<le> k"
proof (induction k arbitrary: m)
  case 0
  then show ?case by (simp add: bit_length.simps)
next
  case (Suc k)
  from Suc.prems have "m div 2 < 2 ^ k" by simp
  from Suc.IH [OF this] show ?case
    by (subst bit_length.simps) simp
qed

lemma bit_length_eq: "2 ^ k \<le> m \<Longrightarrow> m < 2 ^ Suc k \<Longrightarrow> bit_length m = Suc k"
proof (induction k arbitrary: m)
  case 0
  then have "m = 1" by simp
  then show ?case by (simp add: bit_length.simps)
next
  case (Suc k)
  from Suc.prems have "2 ^ k \<le> m div 2" "m div 2 < 2 ^ Suc k" by simp_all
  moreover have "(0::int) < 2 ^ Suc k" by simp
  with Suc.prems(1) have "0 < m" by linarith
  ultimately show ?case
    using Suc.IH [of "m div 2"] by (subst bit_length.simps) simp
qed

lemma float_of_int_exact:
  assumes "0 < n" "n < 2 ^ 53"
  shows "float_of_int n = Inr n"
proof -
  from assms have "bit_length \<bar>n\<bar> \<le> 53" by (simp add: bit_length_bound)
  then have r: "round_to_double \<bar>n\<bar> = \<bar>n\<bar>"
    by (simp add: round_to_double_def)
  have "(2::int) ^ 53 < 2 ^ 1024" by simp
  with assms have "\<not> 2 ^ 1024 \<le> \<bar>n\<bar>" by linarith
  with assms(1) r show ?thesis
    by (simp add: float_of_int_def)
qed

text \<open>
  Claim C7, amended. For every positive \<^verbatim>\<open>min_stack\<close> below \<open>2^53\<close>, where the
  conversion to a double is exact, the base unit is \<open>floor(floor(min_stack / 4) / 100)\<close>
  when that is at least 1 and \<open>max(1, floor(min_stack / 100))\<close> otherwise, and the
  denominations are 1, 5, 25, 100. For every \<^verbatim>\<open>min_stack\<close>, whenever a base unit is
  chosen it is at least 1 and the denominations are 1, 5, 25, 100.
\<close>

theorem chip_mapping_base_unit:
  "(0 < min_stack \<and> min_stack < 2 ^ 53 \<longrightarrow>
      chip_mapping min_stack
        = Inr (if min_stack div 4 div 100 \<ge> 1 then min_stack div 4 div 100
               else max 1 (min_stack div 100),
               [1, 5, 25, 100]))
   \<and> (chip_mapping min_stack = Inr (unit, denoms) \<longrightarrow> 1 \<le> unit \<and> denoms = [1, 5, 25, 100])"
proof -
  have "chip_mapping min_stack
        = Inr (if min_stack div 4 div 100 \<ge> 1 then min_stack div 4 div 100
               else max 1 (min_stack div 100),
               [1, 5, 25, 100])"
    if "0 < min_stack" "min_stack < 2 ^ 53"
    using that float_of_int_exact [OF that]
    by (simp add: chip_mapping_def int_of_quarter_def Let_def)
  moreover have "1 \<le> unit \<and> denoms = [1, 5, 25, 100]"
    if "chip_mapping min_stack = Inr (unit, denoms)"
    using that
    by (auto simp: chip_mapping_def Let_def split: sum.splits if_splits)
  ultimately show ?thesis by blast
qed

text \<open>Stacks of 100 and 250 take the fallback, a stack of 1000 the quarter rule.\<close>

theorem chip_mapping_base_unit_witness:
  "chip_mapping 100 = Inr (1, [1, 5, 25, 100])
   \<and> chip_mapping 250 = Inr (2, [1, 5, 25, 100])
   \<and> chip_mapping 1000 = Inr (2, [1, 5, 25, 100])"
proof -
  have a: "(0::int) < 100 \<and> (100::int) < 2 ^ 53" "(0::int) < 250 \<and> (250::int) < 2 ^ 53"
    "(0::int) < 1000 \<and> (1000::int) < 2 ^ 53"
    by simp_all
  from chip_mapping_base_unit [of 100 1 "[]"] a(1)
  have "chip_mapping 100
      = Inr (if (100::int) div 4 div 100 \<ge> 1 then 100 div 4 div 100 else max 1 (100 div 100),
             [1, 5, 25, 100])"
    by blast
  then have small: "chip_mapping 100 = Inr (1, [1, 5, 25, 100])" by simp
  from chip_mapping_base_unit [of 250 1 "[]"] a(2)
  have "chip_mapping 250
      = Inr (if (250::int) div 4 div 100 \<ge> 1 then 250 div 4 div 100 else max 1 (250 div 100),
             [1, 5, 25, 100])"
    by blast
  then have fallback: "chip_mapping 250 = Inr (2, [1, 5, 25, 100])" by simp
  from chip_mapping_base_unit [of 1000 1 "[]"] a(3)
  have "chip_mapping 1000
      = Inr (if (1000::int) div 4 div 100 \<ge> 1 then 1000 div 4 div 100 else max 1 (1000 div 100),
             [1, 5, 25, 100])"
    by blast
  then have quarter: "chip_mapping 1000 = Inr (2, [1, 5, 25, 100])" by simp
  from small fallback quarter show ?thesis by blast
qed

text \<open>
  Claim C7 as stated covers every positive integer. \<open>2^53 + 207\<close> is odd and lies
  between two doubles; the conversion takes the even neighbour \<open>2^53 + 208\<close>, whose
  quarter ends in 300, where the exact quarter, rounded down, ends in 299: the base unit
  is one more than the claim's formula gives.
\<close>

theorem chip_mapping_rounding_counterexample:
  "(0::int) < 9007199254741199
   \<and> chip_mapping 9007199254741199 = Inr (22517998136853, [1, 5, 25, 100])
   \<and> (9007199254741199 :: int) div 4 div 100 = 22517998136852"
proof -
  have "bit_length 9007199254741199 = Suc 53"
    by (rule bit_length_eq) simp_all
  then have "round_to_double 9007199254741199 = 9007199254741200"
    by (simp add: round_to_double_def Let_def)
  then have "float_of_int 9007199254741199 = Inr 9007199254741200"
    by (simp add: float_of_int_def)
  then show ?thesis
    by (simp add: chip_mapping_def int_of_quarter_def Let_def)
qed

end
